theory Spec2Isabelle
  imports Complex_Main "HOL-Library.Sublist"
begin

section \<open>The Ook decoder of Ciphey: transpiler, validator, tape machine\<close>

text \<open>
  The development follows \<^verbatim>\<open>ciphey/basemods/Decoders/ook.py\<close>. Python strings are
  modelled as \<^typ>\<open>string\<close>, so a text ranges over the code points 0..255; on that
  range \<^verbatim>\<open>str.lower\<close>, \<^verbatim>\<open>str.isspace\<close> and the regular expression \<^verbatim>\<open>\s\<close> are
  the functions below. Python integers are \<^typ>\<open>int\<close>; indices produced by
  \<^verbatim>\<open>enumerate\<close> and the instruction pointer, which the code only ever sets to such an
  index and increments, are \<^typ>\<open>nat\<close>. Exceptions are values of type \<open>fault\<close>.
\<close>

subsection \<open>Python built-ins used by the decoder\<close>

datatype fault = IndexError | KeyError | TypeError | ValueError

definition isspace :: "char \<Rightarrow> bool" where
  \<comment> \<open>\<^verbatim>\<open>str.isspace\<close> and \<^verbatim>\<open>\s\<close> on one character below 256.\<close>
  "isspace c =
     (let n = (of_char c :: nat)
      in (9 \<le> n \<and> n \<le> 13) \<or> (28 \<le> n \<and> n \<le> 32) \<or> n = 133 \<or> n = 160)"

definition lower_char :: "char \<Rightarrow> char" where
  "lower_char c =
     (let n = (of_char c :: nat)
      in if (65 \<le> n \<and> n \<le> 90) \<or> (192 \<le> n \<and> n \<le> 222 \<and> n \<noteq> 215)
         then char_of (n + 32) else c)"

definition lower :: "string \<Rightarrow> string" where
  "lower s = map lower_char s"

definition strip :: "string \<Rightarrow> string" where
  "strip s = rev (dropWhile isspace (rev (dropWhile isspace s)))"

text \<open>
  \<^verbatim>\<open>str.split()\<close> without arguments: maximal runs of non-whitespace characters, in
  order. The second argument is the token being read (\<open>None\<close> between tokens).
\<close>

fun split_from :: "string \<Rightarrow> string option \<Rightarrow> string list" where
  "split_from [] None = []"
| "split_from [] (Some w) = [w]"
| "split_from (c # cs) None =
     (if isspace c then split_from cs None else split_from cs (Some [c]))"
| "split_from (c # cs) (Some w) =
     (if isspace c then w # split_from cs None else split_from cs (Some (w @ [c])))"

definition split :: "string \<Rightarrow> string list" where
  "split s = split_from s None"

text \<open>
  \<^verbatim>\<open>str.count(sub)\<close>: the number of non-overlapping occurrences, scanning from the
  left; for the empty pattern Python answers \<^verbatim>\<open>len(s) + 1\<close>.
\<close>

function count :: "string \<Rightarrow> string \<Rightarrow> nat" where
  "count s sub =
     (if sub = [] then length s + 1
      else if s = [] then 0
      else if prefix sub s then 1 + count (drop (length sub) s) sub
      else count (tl s) sub)"
  by pat_completeness auto
termination
  by (relation "measure (\<lambda>(s, sub). length s)") (auto simp: neq_Nil_conv)

text \<open>
  \<^verbatim>\<open>xs[i]\<close> and \<^verbatim>\<open>xs[i] = v\<close> on a Python list. \<open>position xs i\<close> is the cell that the
  index \<open>i\<close> names: itself when it lies in the list, counted from the end when it is
  negative and not below \<^verbatim>\<open>-len(xs)\<close>; any other index raises IndexError.
\<close>

definition position :: "'a list \<Rightarrow> int \<Rightarrow> nat option" where
  "position xs i =
     (if 0 \<le> i \<and> i < int (length xs) then Some (nat i)
      else if i < 0 \<and> - int (length xs) \<le> i then Some (nat (int (length xs) + i))
      else None)"

definition getitem :: "'a list \<Rightarrow> int \<Rightarrow> fault + 'a" where
  "getitem xs i = (case position xs i of None \<Rightarrow> Inl IndexError | Some k \<Rightarrow> Inr (xs ! k))"

definition setitem :: "'a list \<Rightarrow> int \<Rightarrow> 'a \<Rightarrow> fault + 'a list" where
  "setitem xs i v =
     (case position xs i of None \<Rightarrow> Inl IndexError | Some k \<Rightarrow> Inr (xs[k := v]))"

definition chr :: "int \<Rightarrow> fault + char" where
  \<comment> \<open>\<^verbatim>\<open>chr\<close> raises ValueError outside \<^verbatim>\<open>range(0x110000)\<close>; the characters of this
      model end at 255, and a larger argument is reported as the same fault.\<close>
  "chr v = (if 0 \<le> v \<and> v < 256 then Inr (char_of v) else Inl ValueError)"

subsection \<open>Transpiler: \<^verbatim>\<open>Ook.ook_to_brainfuck\<close>\<close>

definition ook_map :: "string \<rightharpoonup> char" where
  "ook_map = map_of
     [(''ook. ook?'', CHR ''>''),
      (''ook? ook.'', CHR ''<''),
      (''ook. ook.'', CHR ''+''),
      (''ook! ook!'', CHR ''-''),
      (''ook! ook.'', CHR ''.''),
      (''ook. ook!'', CHR '',''),
      (''ook! ook?'', CHR ''[''),
      (''ook? ook!'', CHR '']'')]"

text \<open>
  The pairing loop \<^verbatim>\<open>while i < len(tokens) - 1\<close>; the argument is \<^verbatim>\<open>tokens[i:]\<close>
  and the value is what the loop appends to \<^verbatim>\<open>brainfuck_code\<close> from there on.
\<close>

fun pair_loop :: "string list \<Rightarrow> string" where
  "pair_loop (a # b # ts) =
     (case ook_map (a @ '' '' @ b) of
        Some c \<Rightarrow> c # pair_loop ts
      | None \<Rightarrow> pair_loop (b # ts))"
| "pair_loop ts = []"

definition ook_to_brainfuck :: "string \<Rightarrow> string option" where
  "ook_to_brainfuck ook_program =
     (let cleaned = strip (lower ook_program);
          tokens = split cleaned;
          brainfuck_code = pair_loop tokens
      in if brainfuck_code = [] then None else Some brainfuck_code)"

subsection \<open>Validator: \<^verbatim>\<open>Ook.bracemap_and_check\<close>\<close>

definition legal_instructions :: "char set" where
  "legal_instructions =
     {CHR ''+'', CHR ''-'', CHR ''>'', CHR ''<'', CHR ''['', CHR '']'', CHR ''.'', CHR '',''}"

text \<open>
  The \<^verbatim>\<open>for idx, instruction in enumerate(program)\<close> loop. The stack \<^verbatim>\<open>open_stack\<close> is
  kept with its top at the head. The value \<open>None\<close> is the early
  \<^verbatim>\<open>return (None, False)\<close> of the \<^verbatim>\<open>except IndexError\<close> branch.
\<close>

fun scan ::
  "nat \<Rightarrow> string \<Rightarrow> nat list \<Rightarrow> (nat \<rightharpoonup> nat) \<Rightarrow> nat \<Rightarrow> bool
     \<Rightarrow> (nat list \<times> (nat \<rightharpoonup> nat) \<times> nat \<times> bool) option" where
  "scan idx [] open_stack bracemap legal_count prints =
     Some (open_stack, bracemap, legal_count, prints)"
| "scan idx (instruction # rest) open_stack bracemap legal_count prints =
     (let legal_count' =
            (if instruction \<in> legal_instructions \<or> isspace instruction
             then legal_count + 1 else legal_count)
      in if \<not> prints \<and> instruction = CHR ''.''
         then scan (idx + 1) rest open_stack bracemap legal_count' True
         else if instruction = CHR ''[''
         then scan (idx + 1) rest (idx # open_stack) bracemap legal_count' prints
         else if instruction = CHR '']''
         then (case open_stack of
                 [] \<Rightarrow> None
               | opbracket # open_stack' \<Rightarrow>
                   scan (idx + 1) rest open_stack'
                     (bracemap(opbracket \<mapsto> idx, idx \<mapsto> opbracket)) legal_count' prints)
         else scan (idx + 1) rest open_stack bracemap legal_count' prints)"

definition bracemap_and_check :: "string \<Rightarrow> (nat \<rightharpoonup> nat) option \<times> bool" where
  "bracemap_and_check program =
     (case scan 0 program [] Map.empty 0 False of
        None \<Rightarrow> (None, False)
      | Some (open_stack, bracemap, legal_count, prints) \<Rightarrow>
          (Some bracemap,
           legal_count = length program \<and> length open_stack = 0 \<and> prints))"

subsection \<open>Tape machine: the interpreter loop of \<^verbatim>\<open>Ook.decode\<close>\<close>

record exec =
  codeptr :: nat
  memptr :: int
  memory :: "int list"
  result :: string

definition initial :: exec where
  "initial = \<lparr>codeptr = 0, memptr = 0, memory = replicate 100 0, result = []\<rparr>"

definition timelimit :: real where
  "timelimit = 60"

text \<open>\<^verbatim>\<open>bracemap[codeptr]\<close>; the table is \<open>None\<close> when the validator returned no table.\<close>

definition getbrace :: "(nat \<rightharpoonup> nat) option \<Rightarrow> nat \<Rightarrow> fault + nat" where
  "getbrace bracemap k =
     (case bracemap of
        None \<Rightarrow> Inl TypeError
      | Some m \<Rightarrow> (case m k of None \<Rightarrow> Inl KeyError | Some j \<Rightarrow> Inr j))"

text \<open>
  The \<^verbatim>\<open>if\<close>/\<^verbatim>\<open>elif\<close> chain on \<^verbatim>\<open>cmd\<close>, without the final \<^verbatim>\<open>codeptr += 1\<close>.
  The cell is read once per test, as the source does; a failed read is the fault.
\<close>

definition dispatch :: "char \<Rightarrow> (nat \<rightharpoonup> nat) option \<Rightarrow> exec \<Rightarrow> fault + exec" where
  "dispatch cmd bracemap s =
     (if cmd = CHR ''+'' then
        (case getitem (memory s) (memptr s) of
           Inl e \<Rightarrow> Inl e
         | Inr v \<Rightarrow>
             (case setitem (memory s) (memptr s) (if v < 255 then v + 1 else 0) of
                Inl e \<Rightarrow> Inl e
              | Inr m \<Rightarrow> Inr (s\<lparr>memory := m\<rparr>)))
      else if cmd = CHR ''-'' then
        (case getitem (memory s) (memptr s) of
           Inl e \<Rightarrow> Inl e
         | Inr v \<Rightarrow>
             (case setitem (memory s) (memptr s) (if v > 0 then v - 1 else 255) of
                Inl e \<Rightarrow> Inl e
              | Inr m \<Rightarrow> Inr (s\<lparr>memory := m\<rparr>)))
      else if cmd = CHR ''>'' then
        (let m = (if memptr s = int (length (memory s)) - 1
                  then memory s @ [0] else memory s)
         in Inr (s\<lparr>memory := m, memptr := memptr s + 1\<rparr>))
      else if cmd = CHR ''<'' then
        (if memptr s = 0
         then Inr (s\<lparr>memptr := int (length (memory s)) - 1\<rparr>)
         else Inr (s\<lparr>memptr := memptr s - 1\<rparr>))
      else if cmd = CHR ''['' then
        (case getitem (memory s) (memptr s) of
           Inl e \<Rightarrow> Inl e
         | Inr v \<Rightarrow>
             if v = 0
             then (case getbrace bracemap (codeptr s) of
                     Inl e \<Rightarrow> Inl e
                   | Inr j \<Rightarrow> Inr (s\<lparr>codeptr := j\<rparr>))
             else Inr s)
      else if cmd = CHR '']'' then
        (case getitem (memory s) (memptr s) of
           Inl e \<Rightarrow> Inl e
         | Inr v \<Rightarrow>
             if v \<noteq> 0
             then (case getbrace bracemap (codeptr s) of
                     Inl e \<Rightarrow> Inl e
                   | Inr j \<Rightarrow> Inr (s\<lparr>codeptr := j\<rparr>))
             else Inr s)
      else if cmd = CHR ''.'' then
        (case getitem (memory s) (memptr s) of
           Inl e \<Rightarrow> Inl e
         | Inr v \<Rightarrow>
             (case chr v of
                Inl e \<Rightarrow> Inl e
              | Inr c \<Rightarrow> Inr (s\<lparr>result := result s @ [c]\<rparr>)))
      else if cmd = CHR '','' then
        (case setitem (memory s) (memptr s) 0 of
           Inl e \<Rightarrow> Inl e
         | Inr m \<Rightarrow> Inr (s\<lparr>memory := m\<rparr>))
      else Inr s)"

text \<open>One pass through the loop body after the deadline test: dispatch, then \<^verbatim>\<open>codeptr += 1\<close>.\<close>

definition step :: "string \<Rightarrow> (nat \<rightharpoonup> nat) option \<Rightarrow> exec \<Rightarrow> fault + exec" where
  "step brainfuck_code bracemap s =
     (case dispatch (brainfuck_code ! codeptr s) bracemap s of
        Inl e \<Rightarrow> Inl e
      | Inr s' \<Rightarrow> Inr (s'\<lparr>codeptr := codeptr s' + 1\<rparr>))"

text \<open>
  The \<^verbatim>\<open>while codeptr < len(brainfuck_code)\<close> loop. \<open>clock k\<close> is the value of the
  \<open>k\<close>-th call of \<^verbatim>\<open>time.time()\<close> made by \<^verbatim>\<open>decode\<close> (the call that sets \<^verbatim>\<open>start\<close> is
  number 0), read as a real number. The source compares the double
  \<^verbatim>\<open>time.time() - start\<close> with the limit; \<open>clock k - start\<close> stands for that computed
  number, that is, for \<open>k \<ge> 1\<close> the reading \<open>clock k\<close> is taken up to the rounding of this
  one subtraction. The outer \<open>option\<close> is \<open>None\<close> when the loop never
  returns; inside, \<open>Inl\<close> is an exception, \<open>Inr None\<close> the \<^verbatim>\<open>return None\<close> of the
  timeout and \<open>Inr (Some r)\<close> the \<^verbatim>\<open>return result\<close>.
\<close>

partial_function (option) run ::
  "(nat \<Rightarrow> real) \<Rightarrow> real \<Rightarrow> string \<Rightarrow> (nat \<rightharpoonup> nat) option \<Rightarrow> nat \<Rightarrow> exec
     \<Rightarrow> (fault + string option) option" where
  "run clock start brainfuck_code bracemap k s =
     (if codeptr s < length brainfuck_code then
        (if clock k - start > timelimit then Some (Inr None)
         else (case step brainfuck_code bracemap s of
                 Inl e \<Rightarrow> Some (Inl e)
               | Inr s' \<Rightarrow> run clock start brainfuck_code bracemap (k + 1) s'))
      else Some (Inr (Some (result s))))"

subsection \<open>Facade: \<^verbatim>\<open>Ook.decode\<close>\<close>

definition decode :: "(nat \<Rightarrow> real) \<Rightarrow> string \<Rightarrow> (fault + string option) option" where
  "decode clock ctext =
     (case ook_to_brainfuck ctext of
        None \<Rightarrow> Some (Inr None)
      | Some brainfuck_code \<Rightarrow>
          (case bracemap_and_check brainfuck_code of
             (bracemap, isbf) \<Rightarrow>
               if \<not> isbf then Some (Inr None)
               else run clock (clock 0) brainfuck_code bracemap 1 initial))"

subsection \<open>Applicability score: \<^verbatim>\<open>Ook.fitness\<close>\<close>

text \<open>
  The score is a Python float; here the counts are exact and the quotients are real
  numbers, so rounding is not modelled. Where all three counts are zero the float
  computation is exact as well: the proportion is \<^verbatim>\<open>0.0\<close> and the result is \<^verbatim>\<open>0.0\<close>.
\<close>

definition fitness :: "string \<Rightarrow> real" where
  "fitness text =
     (let ook_dot_count = count (lower text) ''ook.'';
          ook_exclamation_count = count (lower text) ''ook!'';
          ook_question_count = count (lower text) ''ook?'';
          total_chars = length text
      in if total_chars = 0 then 0
         else
           (let ook_token_proportion =
                  real (ook_dot_count + ook_exclamation_count + ook_question_count)
                    / real total_chars
            in if ook_token_proportion > 1 / 10 \<and> ook_dot_count > 0
                    \<and> ook_exclamation_count > 0 \<and> ook_question_count > 0
               then
                 (let min_tokens =
                        min ook_dot_count (min ook_exclamation_count ook_question_count);
                      max_tokens =
                        max ook_dot_count (max ook_exclamation_count ook_question_count);
                      balance_score =
                        (if max_tokens > 0 then real min_tokens / real max_tokens else 0)
                  in ook_token_proportion * (7 / 10) + balance_score * (3 / 10))
               else 0))"

subsection \<open>Calls made by \<^verbatim>\<open>Ook.decode\<close>\<close>

text \<open>
  The methods of the decoder that one call of \<^verbatim>\<open>decode\<close> invokes, in order, with their
  argument: \<^verbatim>\<open>ook_to_brainfuck\<close> first and unconditionally, \<^verbatim>\<open>bracemap_and_check\<close>
  when the transpiler returned a program. The body of \<^verbatim>\<open>decode\<close> has no call of
  \<^verbatim>\<open>fitness\<close>.
\<close>

datatype call =
  Call_ook_to_brainfuck string | Call_bracemap_and_check string | Call_fitness string

definition decode_calls :: "string \<Rightarrow> call list" where
  "decode_calls ctext =
     Call_ook_to_brainfuck ctext #
       (case ook_to_brainfuck ctext of
          None \<Rightarrow> []
        | Some brainfuck_code \<Rightarrow> [Call_bracemap_and_check brainfuck_code])"

subsection \<open>Notions of the specification\<close>

text \<open>An executed jump: \<^verbatim>\<open>[\<close> on a zero cell, or \<^verbatim>\<open>]\<close> on a non-zero cell.\<close>

definition executed_jump :: "string \<Rightarrow> exec \<Rightarrow> bool" where
  "executed_jump brainfuck_code s =
     (case getitem (memory s) (memptr s) of
        Inl e \<Rightarrow> False
      | Inr v \<Rightarrow>
          (brainfuck_code ! codeptr s = CHR ''['' \<and> v = 0) \<or>
          (brainfuck_code ! codeptr s = CHR '']'' \<and> v \<noteq> 0))"

text \<open>
  Bracket structure by counting: a close is unmatched when some prefix of the program
  holds more \<^verbatim>\<open>]\<close> than \<^verbatim>\<open>[\<close>; an open is unmatched when the whole program holds more
  \<^verbatim>\<open>[\<close> than \<^verbatim>\<open>]\<close>.
\<close>

definition opens :: "string \<Rightarrow> nat" where
  "opens p = length (filter (\<lambda>c. c = CHR ''['') p)"

definition closes :: "string \<Rightarrow> nat" where
  "closes p = length (filter (\<lambda>c. c = CHR '']'') p)"

definition unmatched_close :: "string \<Rightarrow> bool" where
  "unmatched_close p = (\<exists>k \<le> length p. opens (take k p) < closes (take k p))"

definition unmatched_open :: "string \<Rightarrow> bool" where
  "unmatched_open p = (closes p < opens p)"

definition all_legal :: "string \<Rightarrow> bool" where
  "all_legal p = (\<forall>c \<in> set p. c \<in> legal_instructions \<or> isspace c)"

text \<open>
  The nearest structurally matching \<^verbatim>\<open>]\<close> of the \<^verbatim>\<open>[\<close> at position \<open>i\<close>: scanning to the
  right of \<open>i\<close>, the first \<^verbatim>\<open>]\<close> met at nesting depth zero. \<open>find_close cs d k\<close> scans
  \<open>cs\<close>, whose first character stands at position \<open>k\<close>, at depth \<open>d\<close>.
\<close>

fun find_close :: "string \<Rightarrow> nat \<Rightarrow> nat \<Rightarrow> nat option" where
  "find_close [] d k = None"
| "find_close (c # cs) d k =
     (if c = CHR '']'' then (if d = 0 then Some k else find_close cs (d - 1) (k + 1))
      else if c = CHR ''['' then find_close cs (d + 1) (k + 1)
      else find_close cs d (k + 1))"

definition matching_close :: "string \<Rightarrow> nat \<Rightarrow> nat option" where
  "matching_close p i = find_close (drop (i + 1) p) 0 (i + 1)"

text \<open>
  The tape invariant: the pointer is an index of the tape and every cell is a byte.
\<close>

definition tape_ok :: "exec \<Rightarrow> bool" where
  "tape_ok s =
     (0 \<le> memptr s \<and> memptr s < int (length (memory s)) \<and>
      (\<forall>v \<in> set (memory s). 0 \<le> v \<and> v \<le> 255))"

text \<open>
  The state after \<open>n\<close> passes through the loop body, the deadline test left out (a run
  that the deadline stops has gone through a prefix of these states).
\<close>

fun iterate :: "nat \<Rightarrow> string \<Rightarrow> (nat \<rightharpoonup> nat) option \<Rightarrow> exec \<Rightarrow> fault + exec" where
  "iterate 0 brainfuck_code bracemap s = Inr s"
| "iterate (Suc n) brainfuck_code bracemap s =
     (if codeptr s < length brainfuck_code then
        (case step brainfuck_code bracemap s of
           Inl e \<Rightarrow> Inl e
         | Inr s' \<Rightarrow> iterate n brainfuck_code bracemap s')
      else Inr s)"

text \<open>
  The output predicted by arithmetic modulo 256 for a program of \<^verbatim>\<open>+\<close>, \<^verbatim>\<open>-\<close> and \<^verbatim>\<open>.\<close>
  run on a cell that holds \<open>v\<close>.
\<close>

fun predicted :: "string \<Rightarrow> int \<Rightarrow> string" where
  "predicted [] v = []"
| "predicted (c # cs) v =
     (if c = CHR ''+'' then predicted cs ((v + 1) mod 256)
      else if c = CHR ''-'' then predicted cs ((v - 1) mod 256)
      else if c = CHR ''.'' then char_of v # predicted cs v
      else predicted cs v)"

text \<open>
  Invariants of the validator's scan when it stands at position \<open>k\<close> of the program
  \<open>p\<close>. \<open>pending p k d st\<close>: every position on the stack \<open>st\<close> is an earlier \<^verbatim>\<open>[\<close>, and
  the search for its matching \<^verbatim>\<open>]\<close> has reached \<open>k\<close> at the depth given by its place on the
  stack (\<open>d\<close> for the top). \<open>settled p k st bm\<close>: every earlier \<^verbatim>\<open>[\<close> is on the stack or
  is recorded in the table, both ways, with its matching \<^verbatim>\<open>]\<close>. \<open>closes_known p k bm\<close>:
  every earlier \<^verbatim>\<open>]\<close> has an entry.
\<close>

fun pending :: "string \<Rightarrow> nat \<Rightarrow> nat \<Rightarrow> nat list \<Rightarrow> bool" where
  "pending p k d [] = True"
| "pending p k d (i # st) =
     (i < k \<and> p ! i = CHR ''['' \<and> i \<notin> set st \<and>
      matching_close p i = find_close (drop k p) d k \<and> pending p k (Suc d) st)"

definition settled :: "string \<Rightarrow> nat \<Rightarrow> nat list \<Rightarrow> (nat \<rightharpoonup> nat) \<Rightarrow> bool" where
  "settled p k st bm =
     (\<forall>i < k. p ! i = CHR ''['' \<longrightarrow>
        i \<in> set st \<or>
        (\<exists>j. i < j \<and> j < k \<and> p ! j = CHR '']'' \<and> bm i = Some j \<and> bm j = Some i \<and>
             matching_close p i = Some j))"

definition closes_known :: "string \<Rightarrow> nat \<Rightarrow> (nat \<rightharpoonup> nat) \<Rightarrow> bool" where
  "closes_known p k bm = (\<forall>j < k. p ! j = CHR '']'' \<longrightarrow> (\<exists>i. bm j = Some i))"

text \<open>Every bracket of the program has an entry in the table that the interpreter reads.\<close>

definition jumps_defined :: "string \<Rightarrow> (nat \<rightharpoonup> nat) option \<Rightarrow> bool" where
  "jumps_defined p bracemap =
     (\<forall>i < length p. p ! i = CHR ''['' \<or> p ! i = CHR '']'' \<longrightarrow>
        (\<exists>j. getbrace bracemap i = Inr j))"

section \<open>Properties\<close>

subsection \<open>The dispatch, one command at a time\<close>

lemma dispatch_plus:
  "dispatch CHR ''+'' bm s =
     (case getitem (memory s) (memptr s) of
        Inl e \<Rightarrow> Inl e
      | Inr v \<Rightarrow>
          (case setitem (memory s) (memptr s) (if v < 255 then v + 1 else 0) of
             Inl e \<Rightarrow> Inl e
           | Inr m \<Rightarrow> Inr (s\<lparr>memory := m\<rparr>)))"
  by (simp add: dispatch_def)

lemma dispatch_minus:
  "dispatch CHR ''-'' bm s =
     (case getitem (memory s) (memptr s) of
        Inl e \<Rightarrow> Inl e
      | Inr v \<Rightarrow>
          (case setitem (memory s) (memptr s) (if v > 0 then v - 1 else 255) of
             Inl e \<Rightarrow> Inl e
           | Inr m \<Rightarrow> Inr (s\<lparr>memory := m\<rparr>)))"
  by (simp add: dispatch_def)

lemma dispatch_right:
  "dispatch CHR ''>'' bm s =
     Inr (s\<lparr>memory := (if memptr s = int (length (memory s)) - 1
                         then memory s @ [0] else memory s),
             memptr := memptr s + 1\<rparr>)"
  by (simp add: dispatch_def)

lemma dispatch_left:
  "dispatch CHR ''<'' bm s =
     (if memptr s = 0
      then Inr (s\<lparr>memptr := int (length (memory s)) - 1\<rparr>)
      else Inr (s\<lparr>memptr := memptr s - 1\<rparr>))"
  by (simp add: dispatch_def)

lemma dispatch_open:
  "dispatch CHR ''['' bm s =
     (case getitem (memory s) (memptr s) of
        Inl e \<Rightarrow> Inl e
      | Inr v \<Rightarrow>
          if v = 0
          then (case getbrace bm (codeptr s) of
                  Inl e \<Rightarrow> Inl e
                | Inr j \<Rightarrow> Inr (s\<lparr>codeptr := j\<rparr>))
          else Inr s)"
  by (simp add: dispatch_def)

lemma dispatch_close:
  "dispatch CHR '']'' bm s =
     (case getitem (memory s) (memptr s) of
        Inl e \<Rightarrow> Inl e
      | Inr v \<Rightarrow>
          if v \<noteq> 0
          then (case getbrace bm (codeptr s) of
                  Inl e \<Rightarrow> Inl e
                | Inr j \<Rightarrow> Inr (s\<lparr>codeptr := j\<rparr>))
          else Inr s)"
  by (simp add: dispatch_def)

lemma dispatch_dot:
  "dispatch CHR ''.'' bm s =
     (case getitem (memory s) (memptr s) of
        Inl e \<Rightarrow> Inl e
      | Inr v \<Rightarrow>
          (case chr v of
             Inl e \<Rightarrow> Inl e
           | Inr c \<Rightarrow> Inr (s\<lparr>result := result s @ [c]\<rparr>)))"
  by (simp add: dispatch_def)

lemma dispatch_comma:
  "dispatch CHR '','' bm s =
     (case setitem (memory s) (memptr s) 0 of
        Inl e \<Rightarrow> Inl e
      | Inr m \<Rightarrow> Inr (s\<lparr>memory := m\<rparr>))"
  by (simp add: dispatch_def)

lemma dispatch_other:
  "cmd \<notin> legal_instructions \<Longrightarrow> dispatch cmd bm s = Inr s"
  by (simp add: dispatch_def legal_instructions_def)

lemma cmd_cases:
  obtains "cmd = CHR ''+''" | "cmd = CHR ''-''" | "cmd = CHR ''>''" | "cmd = CHR ''<''"
        | "cmd = CHR ''[''" | "cmd = CHR '']''" | "cmd = CHR ''.''" | "cmd = CHR '',''"
        | "cmd \<notin> legal_instructions"
  unfolding legal_instructions_def by blast

lemma dispatch_codeptr:
  assumes "dispatch cmd bm s = Inr s'"
  shows "if (case getitem (memory s) (memptr s) of Inl e \<Rightarrow> False
               | Inr v \<Rightarrow> (cmd = CHR ''['' \<and> v = 0) \<or> (cmd = CHR '']'' \<and> v \<noteq> 0))
         then getbrace bm (codeptr s) = Inr (codeptr s')
         else codeptr s' = codeptr s"
proof (cases cmd rule: cmd_cases)
  case 1 with assms show ?thesis
    by (auto simp: dispatch_plus split: sum.splits)
next
  case 2 with assms show ?thesis
    by (auto simp: dispatch_minus split: sum.splits)
next
  case 3 with assms show ?thesis
    by (auto simp: dispatch_right split: sum.splits)
next
  case 4 with assms show ?thesis
    by (auto simp: dispatch_left split: sum.splits if_splits)
next
  case 5 with assms show ?thesis
    by (auto simp: dispatch_open split: sum.splits if_splits)
next
  case 6 with assms show ?thesis
    by (auto simp: dispatch_close split: sum.splits if_splits)
next
  case 7 with assms show ?thesis
    by (auto simp: dispatch_dot split: sum.splits)
next
  case 8 with assms show ?thesis
    by (auto simp: dispatch_comma split: sum.splits)
next
  case 9 with assms show ?thesis
    by (auto simp: dispatch_other legal_instructions_def split: sum.splits)
qed

subsection \<open>The instruction pointer after a step\<close>

text \<open>
  Claim C3, as the code has it. A step that does not execute a jump leaves the
  instruction pointer one higher. A step that executes a jump (\<^verbatim>\<open>[\<close> on a zero cell,
  \<^verbatim>\<open>]\<close> on a non-zero cell) sets the pointer to the jump-table entry of the current
  position and then increments it as well: \<^verbatim>\<open>codeptr += 1\<close> closes the loop body for
  every command, so the pointer ends one past the jump-table target.
\<close>

theorem step_codeptr:
  assumes "step brainfuck_code bracemap s = Inr s'"
  shows "if executed_jump brainfuck_code s
         then (\<exists>j. getbrace bracemap (codeptr s) = Inr j \<and> codeptr s' = j + 1)
         else codeptr s' = codeptr s + 1"
proof -
  from assms obtain t
    where t: "dispatch (brainfuck_code ! codeptr s) bracemap s = Inr t"
      and s': "s' = t\<lparr>codeptr := codeptr t + 1\<rparr>"
    by (auto simp: step_def split: sum.splits)
  from dispatch_codeptr[OF t] s' show ?thesis
    by (auto simp: executed_jump_def split: if_splits sum.splits)
qed

text \<open>
  The claim as the specification words it fails on the program \<^verbatim>\<open>[.]\<close> started on
  the zeroed tape: the \<^verbatim>\<open>[\<close> at position 0 is an executed jump, its jump-table target is
  position 2, and the step leaves the instruction pointer at 3.
\<close>

theorem step_codeptr_counterexample:
  "executed_jump ''[.]'' initial \<and>
   getbrace (fst (bracemap_and_check ''[.]'')) (codeptr initial) = Inr 2 \<and>
   map_sum id codeptr (step ''[.]'' (fst (bracemap_and_check ''[.]'')) initial) = Inr 3"
  by (simp add: executed_jump_def initial_def getitem_def position_def getbrace_def bracemap_and_check_def
      step_def dispatch_open legal_instructions_def isspace_def)

theorem step_codeptr_witness:
  "\<not> executed_jump ''+.'' initial \<and>
   step ''+.'' None initial =
     Inr (initial\<lparr>memory := (replicate 100 0)[0 := 1], codeptr := 1\<rparr>) \<and>
   codeptr (initial\<lparr>memory := (replicate 100 0)[0 := 1], codeptr := 1\<rparr>)
     = codeptr initial + 1"
proof -
  have h: "step ''+.'' None initial =
             Inr (initial\<lparr>memory := (replicate 100 0)[0 := 1], codeptr := 1\<rparr>)"
    by (simp add: step_def dispatch_plus initial_def getitem_def setitem_def position_def)
  have e: "\<not> executed_jump ''+.'' initial"
    by (simp add: executed_jump_def initial_def getitem_def position_def)
  from step_codeptr[OF h] e h show ?thesis by simp
qed

subsection \<open>The validator's verdict\<close>

lemma ex_le_Suc: "(\<exists>k \<le> Suc n. P k) \<longleftrightarrow> P 0 \<or> (\<exists>k \<le> n. P (Suc k))"
  by (metis Suc_le_mono le0 not0_implies_Suc)

lemma opens_simps [simp]:
  "opens [] = 0"
  "opens (c # cs) = (if c = CHR ''['' then 1 else 0) + opens cs"
  by (simp_all add: opens_def)

lemma closes_simps [simp]:
  "closes [] = 0"
  "closes (c # cs) = (if c = CHR '']'' then 1 else 0) + closes cs"
  by (simp_all add: closes_def)

lemma scan_None_iff:
  "scan idx rest st bm lc pr = None \<longleftrightarrow>
     (\<exists>k \<le> length rest. length st + opens (take k rest) < closes (take k rest))"
proof (induction rest arbitrary: idx st bm lc pr)
  case Nil
  then show ?case by simp
next
  case (Cons c cs)
  show ?case
  proof (cases "c = CHR '']''")
    case True
    show ?thesis
    proof (cases st)
      case Nil
      have "\<exists>k \<le> length (c # cs). length st + opens (take k (c # cs)) < closes (take k (c # cs))"
        using True Nil by (intro exI[of _ 1]) simp
      with True Nil show ?thesis by simp
    next
      case (Cons i st')
      with True Cons.IH[of "idx + 1" st'] show ?thesis
        by (simp add: ex_le_Suc)
    qed
  next
    case False
    show ?thesis
    proof (cases "c = CHR ''[''")
      case True
      with Cons.IH[of "idx + 1" "idx # st"] show ?thesis
        by (simp add: ex_le_Suc Let_def)
    next
      case nopen: False
      with False Cons.IH[of "idx + 1" st] show ?thesis
        by (simp add: ex_le_Suc Let_def)
    qed
  qed
qed

lemma scan_Cons_Some:
  assumes "scan idx (c # cs) st bm lc pr = Some r"
  obtains st2 bm2 pr2
  where "scan (idx + 1) cs st2 bm2
           (if c \<in> legal_instructions \<or> isspace c then lc + 1 else lc) pr2 = Some r"
    and "length st2 + (if c = CHR '']'' then 1 else 0)
           = length st + (if c = CHR ''['' then 1 else 0)"
    and "pr2 = (pr \<or> c = CHR ''.'')"
proof (cases "c = CHR '']''")
  case True
  with assms obtain i st2 where st: "st = i # st2"
    by (cases st) (simp_all add: Let_def)
  with True assms that[of st2 "bm(i \<mapsto> idx, idx \<mapsto> i)" pr] show ?thesis
    by (simp add: Let_def)
next
  case False
  show ?thesis
  proof (cases "c = CHR ''[''")
    case True
    with assms that[of "idx # st" bm pr] show ?thesis
      by (simp add: Let_def)
  next
    case nopen: False
    show ?thesis
    proof (cases "\<not> pr \<and> c = CHR ''.''")
      case True
      with assms that[of st bm True] show ?thesis
        by (simp add: Let_def)
    next
      case nodot: False
      with False nopen assms that[of st bm pr] show ?thesis
        by (auto simp: Let_def)
    qed
  qed
qed

lemma scan_Some:
  "scan idx rest st bm lc pr = Some (st', bm', lc', pr') \<Longrightarrow>
     length st' + closes rest = length st + opens rest \<and>
     lc' = lc + length (filter (\<lambda>c. c \<in> legal_instructions \<or> isspace c) rest) \<and>
     pr' = (pr \<or> CHR ''.'' \<in> set rest)"
proof (induction rest arbitrary: idx st bm lc pr)
  case Nil
  then show ?case by simp
next
  case (Cons c cs)
  from Cons.prems obtain st2 bm2 pr2
    where eq: "scan (idx + 1) cs st2 bm2
           (if c \<in> legal_instructions \<or> isspace c then lc + 1 else lc) pr2
             = Some (st', bm', lc', pr')"
    and len: "length st2 + (if c = CHR '']'' then 1 else 0)
           = length st + (if c = CHR ''['' then 1 else 0)"
    and pr2: "pr2 = (pr \<or> c = CHR ''.'')"
    by (rule scan_Cons_Some)
  from Cons.IH[OF eq] len pr2 show ?case
    by (auto split: if_splits)
qed

lemma length_filter_all: "length (filter P xs) = length xs \<longleftrightarrow> (\<forall>x \<in> set xs. P x)"
  by (metis filter_id_conv length_filter_less less_irrefl)

text \<open>
  Claim C4, amended in its last clause. The validator answers \<open>isValid = True\<close> exactly
  when every character of the program is an instruction symbol or whitespace, no \<^verbatim>\<open>[\<close> is
  left unmatched at the end of the scan, no unmatched \<^verbatim>\<open>]\<close> was met, and the program holds
  an output instruction \<^verbatim>\<open>.\<close>. When an unmatched \<^verbatim>\<open>]\<close> occurs the scan returns at once,
  whatever follows in the program, with \<open>isValid = False\<close> and with no table at all: the
  first component is \<open>None\<close>, not an empty table and not the table built so far.
\<close>

theorem validator_verdict:
  "(snd (bracemap_and_check p) \<longleftrightarrow>
      all_legal p \<and> \<not> unmatched_open p \<and> \<not> unmatched_close p \<and> CHR ''.'' \<in> set p) \<and>
   (unmatched_close p \<longrightarrow> (\<forall>q. bracemap_and_check (p @ q) = (None, False)))"
proof
  show "snd (bracemap_and_check p) \<longleftrightarrow>
      all_legal p \<and> \<not> unmatched_open p \<and> \<not> unmatched_close p \<and> CHR ''.'' \<in> set p"
  proof (cases "scan 0 p [] Map.empty 0 False")
    case None
    then have "unmatched_close p"
      by (simp add: scan_None_iff unmatched_close_def)
    with None show ?thesis
      by (simp add: bracemap_and_check_def)
  next
    case (Some r)
    obtain st' bm' lc' pr' where r: "r = (st', bm', lc', pr')"
      by (cases r) auto
    from Some have "scan 0 p [] Map.empty 0 False \<noteq> None"
      by simp
    then have "\<not> unmatched_close p"
      unfolding scan_None_iff unmatched_close_def by simp
    note nc = this
    from scan_Some[OF Some[unfolded r]]
    have len: "length st' + closes p = opens p"
      and lc: "lc' = length (filter (\<lambda>c. c \<in> legal_instructions \<or> isspace c) p)"
      and pr: "pr' = (CHR ''.'' \<in> set p)"
      by simp_all
    from len have "length st' = 0 \<longleftrightarrow> \<not> unmatched_open p"
      unfolding unmatched_open_def by linarith
    moreover from lc have "lc' = length p \<longleftrightarrow> all_legal p"
      by (simp add: all_legal_def length_filter_all)
    ultimately show ?thesis using Some r nc pr
      by (auto simp: bracemap_and_check_def)
  qed
next
  show "unmatched_close p \<longrightarrow> (\<forall>q. bracemap_and_check (p @ q) = (None, False))"
  proof (intro impI allI)
    fix q
    assume "unmatched_close p"
    then obtain k where "k \<le> length p" "opens (take k p) < closes (take k p)"
      unfolding unmatched_close_def by blast
    then have "\<exists>k \<le> length (p @ q). length ([]::nat list) + opens (take k (p @ q))
                  < closes (take k (p @ q))"
      by (intro exI[of _ k]) simp
    then have "scan 0 (p @ q) [] Map.empty 0 False = None"
      by (simp only: scan_None_iff)
    then show "bracemap_and_check (p @ q) = (None, False)"
      by (simp add: bracemap_and_check_def)
  qed
qed

text \<open>
  The specification words the last clause as a return "with an empty/partial table".
  On the program \<^verbatim>\<open>[.]]\<close> the pair of positions 0 and 2 has been recorded when the
  unmatched \<^verbatim>\<open>]\<close> at position 3 is met, and what the validator returns is \<open>None\<close>:
  neither the empty table nor that partial table. The difference is observable, since a
  lookup in \<open>None\<close> raises TypeError where a lookup in an empty table raises KeyError.
\<close>

theorem validator_verdict_counterexample:
  "unmatched_close ''[.]]'' \<and>
   fst (bracemap_and_check ''[.]]'') = None \<and>
   fst (bracemap_and_check ''[.]]'') \<noteq> Some Map.empty \<and>
   fst (bracemap_and_check ''[.]]'') \<noteq> Some [0 \<mapsto> 2, 2 \<mapsto> 0] \<and>
   getbrace (fst (bracemap_and_check ''[.]]'')) 0 = Inl TypeError \<and>
   getbrace (Some Map.empty) 0 = Inl KeyError"
proof -
  have "unmatched_close ''[.]]''"
    unfolding unmatched_close_def by (intro exI[of _ 4]) simp
  moreover have "fst (bracemap_and_check ''[.]]'') = None"
    by (simp add: bracemap_and_check_def legal_instructions_def isspace_def)
  ultimately show ?thesis
    by (simp add: getbrace_def)
qed

theorem validator_verdict_witness:
  "snd (bracemap_and_check ''[.]'') \<and> all_legal ''[.]'' \<and> \<not> unmatched_open ''[.]'' \<and>
   \<not> unmatched_close ''[.]'' \<and> CHR ''.'' \<in> set ''[.]'' \<and>
   unmatched_close ''].'' \<and> bracemap_and_check (''].'' @ ''[+'') = (None, False)"
proof -
  have v: "snd (bracemap_and_check ''[.]'')"
    by (simp add: bracemap_and_check_def legal_instructions_def isspace_def)
  have u: "unmatched_close ''].''"
    unfolding unmatched_close_def by (intro exI[of _ 1]) simp
  from validator_verdict[of "''[.]''"] v have
    "all_legal ''[.]'' \<and> \<not> unmatched_open ''[.]'' \<and> \<not> unmatched_close ''[.]'' \<and>
     CHR ''.'' \<in> set ''[.]''"
    by blast
  moreover from validator_verdict[of "''].''"] u
  have "bracemap_and_check (''].'' @ ''[+'') = (None, False)"
    by blast
  ultimately show ?thesis using v u by blast
qed

subsection \<open>The jump table of an accepted program\<close>

lemma find_close_drop:
  assumes "k < length p"
  shows "find_close (drop k p) d k =
     (if p ! k = CHR '']'' then (if d = 0 then Some k else find_close (drop (Suc k) p) (d - 1) (Suc k))
      else if p ! k = CHR ''['' then find_close (drop (Suc k) p) (Suc d) (Suc k)
      else find_close (drop (Suc k) p) d (Suc k))"
proof -
  from assms have "drop k p = p ! k # drop (Suc k) p"
    by (simp add: Cons_nth_drop_Suc)
  then show ?thesis by simp
qed

lemma pending_less: "pending p k d st \<Longrightarrow> i \<in> set st \<Longrightarrow> i < k"
  by (induction st arbitrary: d) auto

lemma pending_open:
  "pending p k d st \<Longrightarrow> k < length p \<Longrightarrow> p ! k = CHR ''['' \<Longrightarrow> pending p (Suc k) (Suc d) st"
  by (induction st arbitrary: d) (auto simp: find_close_drop)

lemma pending_close:
  "pending p k (Suc d) st \<Longrightarrow> k < length p \<Longrightarrow> p ! k = CHR '']'' \<Longrightarrow> pending p (Suc k) d st"
  by (induction st arbitrary: d) (auto simp: find_close_drop)

lemma pending_skip:
  "pending p k d st \<Longrightarrow> k < length p \<Longrightarrow> p ! k \<noteq> CHR ''['' \<Longrightarrow> p ! k \<noteq> CHR '']''
     \<Longrightarrow> pending p (Suc k) d st"
  by (induction st arbitrary: d) (auto simp: find_close_drop)

lemma pending_push:
  assumes "pending p k 0 st" "k < length p" "p ! k = CHR ''[''"
  shows "pending p (Suc k) 0 (k # st)"
proof -
  have "k \<notin> set st"
    using pending_less[OF assms(1)] by blast
  moreover have "pending p (Suc k) (Suc 0) st"
    using assms by (rule pending_open)
  ultimately show ?thesis
    using assms by (simp add: matching_close_def)
qed

lemma pending_pop:
  assumes "pending p k 0 (i # st)" "k < length p" "p ! k = CHR '']''"
  shows "pending p (Suc k) 0 st" "matching_close p i = Some k" "i < k" "p ! i = CHR ''[''"
    "i \<notin> set st"
proof -
  from assms(1) have a: "i < k" "p ! i = CHR ''[''" "i \<notin> set st"
    "matching_close p i = find_close (drop k p) 0 k" "pending p k (Suc 0) st"
    by simp_all
  from a(5) assms(2,3) show "pending p (Suc k) 0 st" by (rule pending_close)
  from a(4) assms(2,3) show "matching_close p i = Some k" by (simp add: find_close_drop)
  from a show "i < k" "p ! i = CHR ''[''" "i \<notin> set st" by simp_all
qed

lemma settled_push:
  assumes "settled p k st bm"
  shows "settled p (Suc k) (k # st) bm"
  unfolding settled_def
proof (intro allI impI)
  fix i assume i: "i < Suc k" "p ! i = CHR ''[''"
  show "i \<in> set (k # st) \<or>
        (\<exists>j. i < j \<and> j < Suc k \<and> p ! j = CHR '']'' \<and> bm i = Some j \<and> bm j = Some i \<and>
             matching_close p i = Some j)"
  proof (cases "i = k")
    case True then show ?thesis by simp
  next
    case False
    with i have "i < k" by simp
    with assms i(2) have "i \<in> set st \<or>
        (\<exists>j. i < j \<and> j < k \<and> p ! j = CHR '']'' \<and> bm i = Some j \<and> bm j = Some i \<and>
             matching_close p i = Some j)"
      unfolding settled_def by blast
    then show ?thesis
      using less_Suc_eq by auto
  qed
qed

lemma settled_skip:
  assumes "settled p k st bm" "p ! k \<noteq> CHR ''[''"
  shows "settled p (Suc k) st bm"
  unfolding settled_def
proof (intro allI impI)
  fix i assume i: "i < Suc k" "p ! i = CHR ''[''"
  with assms(2) have "i < k" by (cases "i = k") auto
  with assms(1) i(2) have "i \<in> set st \<or>
        (\<exists>j. i < j \<and> j < k \<and> p ! j = CHR '']'' \<and> bm i = Some j \<and> bm j = Some i \<and>
             matching_close p i = Some j)"
    unfolding settled_def by blast
  then show "i \<in> set st \<or>
        (\<exists>j. i < j \<and> j < Suc k \<and> p ! j = CHR '']'' \<and> bm i = Some j \<and> bm j = Some i \<and>
             matching_close p i = Some j)"
    using less_Suc_eq by auto
qed

lemma settled_pop:
  assumes s: "settled p k (i0 # st) bm"
    and k: "p ! k = CHR '']''"
    and i0: "i0 < k" "p ! i0 = CHR ''[''" "matching_close p i0 = Some k"
  shows "settled p (Suc k) st (bm(i0 \<mapsto> k, k \<mapsto> i0))"
  unfolding settled_def
proof (intro allI impI)
  fix i assume i: "i < Suc k" "p ! i = CHR ''[''"
  let ?bm = "bm(i0 \<mapsto> k, k \<mapsto> i0)"
  from i k have ik: "i < k" by (cases "i = k") auto
  show "i \<in> set st \<or>
        (\<exists>j. i < j \<and> j < Suc k \<and> p ! j = CHR '']'' \<and> ?bm i = Some j \<and> ?bm j = Some i \<and>
             matching_close p i = Some j)"
  proof (cases "i = i0")
    case True
    with i0 k have "i < k \<and> k < Suc k \<and> p ! k = CHR '']'' \<and> ?bm i = Some k \<and> ?bm k = Some i \<and>
             matching_close p i = Some k"
      by simp
    then show ?thesis by blast
  next
    case False
    with s ik i(2) have "i \<in> set st \<or>
        (\<exists>j. i < j \<and> j < k \<and> p ! j = CHR '']'' \<and> bm i = Some j \<and> bm j = Some i \<and>
             matching_close p i = Some j)"
      unfolding settled_def by auto
    then show ?thesis
    proof
      assume "i \<in> set st" then show ?thesis by simp
    next
      assume "\<exists>j. i < j \<and> j < k \<and> p ! j = CHR '']'' \<and> bm i = Some j \<and> bm j = Some i \<and>
             matching_close p i = Some j"
      then obtain j where j: "i < j" "j < k" "p ! j = CHR '']''" "bm i = Some j" "bm j = Some i"
             "matching_close p i = Some j"
        by blast
      from j(3) i0(2) have "j \<noteq> i0" by auto
      with j False ik have "i < j \<and> j < Suc k \<and> p ! j = CHR '']'' \<and> ?bm i = Some j \<and>
          ?bm j = Some i \<and> matching_close p i = Some j"
        by simp
      then show ?thesis by blast
    qed
  qed
qed

lemma closes_known_skip:
  "closes_known p k bm \<Longrightarrow> p ! k \<noteq> CHR '']'' \<Longrightarrow> closes_known p (Suc k) bm"
  unfolding closes_known_def using less_Suc_eq by auto

lemma closes_known_pop:
  assumes "closes_known p k bm"
  shows "closes_known p (Suc k) (bm(i0 \<mapsto> k, k \<mapsto> i0))"
  unfolding closes_known_def
proof (intro allI impI)
  fix j assume "j < Suc k" "p ! j = CHR '']''"
  show "\<exists>i. (bm(i0 \<mapsto> k, k \<mapsto> i0)) j = Some i"
  proof (cases "j = k \<or> j = i0")
    case True then show ?thesis by auto
  next
    case False
    with \<open>j < Suc k\<close> have "j < k" by simp
    with assms \<open>p ! j = CHR '']''\<close> obtain i where "bm j = Some i"
      unfolding closes_known_def by blast
    with False show ?thesis by simp
  qed
qed

lemma scan_Cons_cases:
  assumes "scan idx (c # cs) st bm lc pr = Some r"
  obtains (close) i st2 lc2 where "c = CHR '']''" "st = i # st2"
      "scan (idx + 1) cs st2 (bm(i \<mapsto> idx, idx \<mapsto> i)) lc2 pr = Some r"
  | (opn) lc2 where "c = CHR ''[''" "scan (idx + 1) cs (idx # st) bm lc2 pr = Some r"
  | (other) lc2 pr2 where "c \<noteq> CHR ''[''" "c \<noteq> CHR '']''"
      "scan (idx + 1) cs st bm lc2 pr2 = Some r"
proof (cases "c = CHR '']''")
  case True
  with assms obtain i st2 where st: "st = i # st2"
    by (cases st) (simp_all add: Let_def)
  with True assms close show ?thesis
    by (simp add: Let_def)
next
  case False
  show ?thesis
  proof (cases "c = CHR ''[''")
    case True
    with assms opn show ?thesis
      by (simp add: Let_def)
  next
    case nopen: False
    show ?thesis
    proof (cases "\<not> pr \<and> c = CHR ''.''")
      case True
      with assms other[OF nopen False] show ?thesis
        by (simp add: Let_def)
    next
      case nodot: False
      with False nopen assms other[OF nopen False] show ?thesis
        by (auto simp: Let_def)
    qed
  qed
qed

lemma scan_invariant:
  assumes "scan k (drop k p) st bm lc pr = Some (st', bm', lc', pr')" "k \<le> length p"
    "pending p k 0 st" "settled p k st bm" "closes_known p k bm"
  shows "pending p (length p) 0 st' \<and> settled p (length p) st' bm' \<and>
         closes_known p (length p) bm'"
  using assms
proof (induction "length p - k" arbitrary: k st bm lc pr)
  case 0
  then have "k = length p" by simp
  with 0 show ?case by simp
next
  case (Suc n)
  then have k: "k < length p" and n: "n = length p - Suc k" and k': "Suc k \<le> length p"
    by simp_all
  from k have d: "drop k p = p ! k # drop (Suc k) p"
    by (simp add: Cons_nth_drop_Suc)
  from Suc.prems(1) have sc: "scan k (p ! k # drop (Suc k) p) st bm lc pr = Some (st', bm', lc', pr')"
    by (simp only: d)
  from sc show ?case
  proof (cases rule: scan_Cons_cases)
    case (close i st2 lc2)
    from Suc.prems(3) close(2) have pe: "pending p k 0 (i # st2)" by simp
    note pp = pending_pop[OF pe k close(1)]
    have "settled p (Suc k) st2 (bm(i \<mapsto> k, k \<mapsto> i))"
      using Suc.prems(4) close(1,2) pp by (intro settled_pop) simp_all
    moreover have "closes_known p (Suc k) (bm(i \<mapsto> k, k \<mapsto> i))"
      using Suc.prems(5) by (rule closes_known_pop)
    ultimately show ?thesis
      using Suc.hyps(1)[OF n _ k' pp(1)] close(3) by simp
  next
    case (opn lc2)
    have "pending p (Suc k) 0 (k # st)"
      using Suc.prems(3) k opn(1) by (rule pending_push)
    moreover have "settled p (Suc k) (k # st) bm"
      using Suc.prems(4) by (rule settled_push)
    moreover have "closes_known p (Suc k) bm"
      using Suc.prems(5) opn(1) by (intro closes_known_skip) simp_all
    ultimately show ?thesis
      using Suc.hyps(1)[OF n _ k'] opn(2) by simp
  next
    case (other lc2 pr2)
    have "pending p (Suc k) 0 st"
      using Suc.prems(3) k other(1,2) by (rule pending_skip)
    moreover have "settled p (Suc k) st bm"
      using Suc.prems(4) other(1) by (rule settled_skip)
    moreover have "closes_known p (Suc k) bm"
      using Suc.prems(5) other(2) by (rule closes_known_skip)
    ultimately show ?thesis
      using Suc.hyps(1)[OF n _ k'] other(3) by simp
  qed
qed

lemma valid_table:
  assumes "bracemap_and_check p = (bmo, True)"
  obtains bm where "bmo = Some bm" "settled p (length p) [] bm" "closes_known p (length p) bm"
proof -
  from assms obtain st' bm lc' pr'
    where sc: "scan 0 p [] Map.empty 0 False = Some (st', bm, lc', pr')"
      and bmo: "bmo = Some bm" and st': "st' = []"
    by (auto simp: bracemap_and_check_def split: option.splits)
  have "pending p (length p) 0 st' \<and> settled p (length p) st' bm \<and>
         closes_known p (length p) bm"
    by (rule scan_invariant[of 0 p "[]" Map.empty 0 False])
       (simp_all add: sc settled_def closes_known_def)
  with that[OF bmo] st' show ?thesis by simp
qed

lemma valid_jumps_defined:
  assumes "bracemap_and_check p = (bmo, True)"
  shows "jumps_defined p bmo"
proof -
  from assms obtain bm where bm: "bmo = Some bm" "settled p (length p) [] bm"
    "closes_known p (length p) bm"
    by (rule valid_table)
  show ?thesis
    unfolding jumps_defined_def
  proof (intro allI impI)
    fix i assume i: "i < length p" "p ! i = CHR ''['' \<or> p ! i = CHR '']''"
    from i(2) have "\<exists>j. bm i = Some j"
    proof
      assume "p ! i = CHR ''[''"
      with bm(2) i(1) show ?thesis unfolding settled_def by fastforce
    next
      assume "p ! i = CHR '']''"
      with bm(3) i(1) show ?thesis unfolding closes_known_def by blast
    qed
    then show "\<exists>j. getbrace bmo i = Inr j"
      by (auto simp: getbrace_def bm(1))
  qed
qed

text \<open>
  Claim C5. For a program that the validator accepts, every position \<open>i\<close> that holds \<^verbatim>\<open>[\<close>
  has a table entry \<open>j\<close>; the table maps \<open>j\<close> back to \<open>i\<close>; \<open>j\<close> lies to the right of \<open>i\<close>,
  holds \<^verbatim>\<open>]\<close>, and is the nearest structurally matching \<^verbatim>\<open>]\<close>: the first one met at
  nesting depth zero when scanning to the right of \<open>i\<close>.
\<close>

theorem bracemap_symmetric:
  assumes "bracemap_and_check p = (Some bm, True)" "i < length p" "p ! i = CHR ''[''"
  shows "\<exists>j. bm i = Some j \<and> bm j = Some i \<and> i < j \<and> j < length p \<and> p ! j = CHR '']'' \<and>
             matching_close p i = Some j"
proof -
  from assms(1) obtain bm' where "Some bm = Some bm'" "settled p (length p) [] bm'"
    by (rule valid_table)
  then have "settled p (length p) [] bm" by simp
  with assms(2,3) show ?thesis
    unfolding settled_def by fastforce
qed

theorem bracemap_symmetric_witness:
  "bracemap_and_check ''[[.].]'' = (Some [1 \<mapsto> 3, 3 \<mapsto> 1, 0 \<mapsto> 5, 5 \<mapsto> 0], True) \<and>
   0 < length ''[[.].]'' \<and> ''[[.].]'' ! 0 = CHR ''['' \<and>
   ''[[.].]'' ! 5 = CHR '']'' \<and> matching_close ''[[.].]'' 0 = Some 5"
proof -
  have v: "bracemap_and_check ''[[.].]'' = (Some [1 \<mapsto> 3, 3 \<mapsto> 1, 0 \<mapsto> 5, 5 \<mapsto> 0], True)"
    by (simp add: bracemap_and_check_def legal_instructions_def isspace_def eval_nat_numeral)
  from bracemap_symmetric[OF v, of 0] v show ?thesis
    by simp
qed

subsection \<open>The tape invariant\<close>

lemma getitem_ok:
  "tape_ok s \<Longrightarrow> getitem (memory s) (memptr s) = Inr (memory s ! nat (memptr s))"
  by (simp add: tape_ok_def getitem_def position_def)

lemma setitem_ok:
  "tape_ok s \<Longrightarrow> setitem (memory s) (memptr s) v = Inr ((memory s)[nat (memptr s) := v])"
  by (simp add: tape_ok_def setitem_def position_def)

lemma cell_byte:
  assumes "tape_ok s"
  shows "0 \<le> memory s ! nat (memptr s) \<and> memory s ! nat (memptr s) \<le> 255"
proof -
  from assms have "nat (memptr s) < length (memory s)"
    unfolding tape_ok_def by linarith
  then have "memory s ! nat (memptr s) \<in> set (memory s)"
    by (rule nth_mem)
  with assms show ?thesis
    unfolding tape_ok_def by blast
qed

lemma tape_ok_update:
  assumes "tape_ok s" "0 \<le> v" "v \<le> 255"
  shows "tape_ok (s\<lparr>memory := (memory s)[nat (memptr s) := v]\<rparr>)"
proof -
  have "\<forall>x \<in> set ((memory s)[nat (memptr s) := v]). 0 \<le> x \<and> x \<le> 255"
    using assms set_update_subset_insert[of "memory s" "nat (memptr s)" v]
    by (auto simp: tape_ok_def)
  with assms show ?thesis by (simp add: tape_ok_def)
qed

lemma tape_ok_codeptr [simp]: "tape_ok (s\<lparr>codeptr := j\<rparr>) = tape_ok s"
  by (simp add: tape_ok_def)

lemma tape_ok_result [simp]: "tape_ok (s\<lparr>result := r\<rparr>) = tape_ok s"
  by (simp add: tape_ok_def)

lemma tape_ok_right:
  assumes "tape_ok s"
  shows "tape_ok (s\<lparr>memory := (if memptr s = int (length (memory s)) - 1
                         then memory s @ [0] else memory s),
             memptr := memptr s + 1\<rparr>)"
  using assms by (auto simp: tape_ok_def)

lemma tape_ok_left:
  assumes "tape_ok s"
  shows "tape_ok (if memptr s = 0
      then (s\<lparr>memptr := int (length (memory s)) - 1\<rparr>)
      else (s\<lparr>memptr := memptr s - 1\<rparr>))"
  using assms by (auto simp: tape_ok_def)

text \<open>Under the invariant no command faults, and the invariant holds afterwards.\<close>

lemma dispatch_ok:
  assumes ok: "tape_ok s"
    and br: "cmd = CHR ''['' \<or> cmd = CHR '']'' \<Longrightarrow> \<exists>j. getbrace bm (codeptr s) = Inr j"
  shows "\<exists>s'. dispatch cmd bm s = Inr s' \<and> tape_ok s'"
proof (cases cmd rule: cmd_cases)
  case 1
  have "tape_ok (s\<lparr>memory := (memory s)[nat (memptr s) :=
          (if memory s ! nat (memptr s) < 255 then memory s ! nat (memptr s) + 1 else 0)]\<rparr>)"
    using cell_byte[OF ok] by (intro tape_ok_update[OF ok]) auto
  with 1 ok show ?thesis
    by (simp add: dispatch_plus getitem_ok setitem_ok)
next
  case 2
  have "tape_ok (s\<lparr>memory := (memory s)[nat (memptr s) :=
          (if memory s ! nat (memptr s) > 0 then memory s ! nat (memptr s) - 1 else 255)]\<rparr>)"
    using cell_byte[OF ok] by (intro tape_ok_update[OF ok]) auto
  with 2 ok show ?thesis
    by (simp add: dispatch_minus getitem_ok setitem_ok)
next
  case 3
  with tape_ok_right[OF ok] show ?thesis
    by (simp add: dispatch_right)
next
  case 4
  with tape_ok_left[OF ok] show ?thesis
    by (simp add: dispatch_left split: if_splits)
next
  case 5
  with br obtain j where "getbrace bm (codeptr s) = Inr j" by blast
  with 5 ok show ?thesis
    by (simp add: dispatch_open getitem_ok)
next
  case 6
  with br obtain j where "getbrace bm (codeptr s) = Inr j" by blast
  with 6 ok show ?thesis
    by (simp add: dispatch_close getitem_ok)
next
  case 7
  with ok cell_byte[OF ok] show ?thesis
    by (simp add: dispatch_dot getitem_ok chr_def)
next
  case 8
  with ok tape_ok_update[OF ok, of 0] show ?thesis
    by (simp add: dispatch_comma setitem_ok)
next
  case 9
  with ok show ?thesis
    by (simp add: dispatch_other)
qed

lemma step_ok:
  assumes ok: "tape_ok s"
    and br: "brainfuck_code ! codeptr s = CHR ''['' \<or> brainfuck_code ! codeptr s = CHR '']''
              \<Longrightarrow> \<exists>j. getbrace bm (codeptr s) = Inr j"
  shows "\<exists>s'. step brainfuck_code bm s = Inr s' \<and> tape_ok s'"
proof -
  from dispatch_ok[OF ok br] obtain t
    where "dispatch (brainfuck_code ! codeptr s) bm s = Inr t" "tape_ok t"
    by blast
  then show ?thesis by (simp add: step_def)
qed

lemma step_plus:
  assumes "tape_ok s" "brainfuck_code ! codeptr s = CHR ''+''"
  shows "step brainfuck_code bm s =
           Inr (s\<lparr>memory := (memory s)[nat (memptr s) := (memory s ! nat (memptr s) + 1) mod 256],
                  codeptr := codeptr s + 1\<rparr>)"
proof -
  have "(if memory s ! nat (memptr s) < 255 then memory s ! nat (memptr s) + 1 else 0)
          = (memory s ! nat (memptr s) + 1) mod 256"
    using cell_byte[OF assms(1)] by auto
  with assms show ?thesis
    by (simp add: step_def dispatch_plus getitem_ok setitem_ok)
qed

lemma step_minus:
  assumes "tape_ok s" "brainfuck_code ! codeptr s = CHR ''-''"
  shows "step brainfuck_code bm s =
           Inr (s\<lparr>memory := (memory s)[nat (memptr s) := (memory s ! nat (memptr s) - 1) mod 256],
                  codeptr := codeptr s + 1\<rparr>)"
proof -
  have "(if memory s ! nat (memptr s) > 0 then memory s ! nat (memptr s) - 1 else 255)
          = (memory s ! nat (memptr s) - 1) mod 256"
    using cell_byte[OF assms(1)] by auto
  with assms show ?thesis
    by (simp add: step_def dispatch_minus getitem_ok setitem_ok)
qed

lemma step_dot:
  assumes "tape_ok s" "brainfuck_code ! codeptr s = CHR ''.''"
  shows "step brainfuck_code bm s =
           Inr (s\<lparr>result := result s @ [char_of (memory s ! nat (memptr s))],
                  codeptr := codeptr s + 1\<rparr>)"
  using assms cell_byte[OF assms(1)]
  by (simp add: step_def dispatch_dot getitem_ok chr_def)

subsection \<open>The interpreter loop, one iteration at a time\<close>

lemma run_end: "\<not> codeptr s < length p \<Longrightarrow> run clock start p bm k s = Some (Inr (Some (result s)))"
  by (subst run.simps) simp

lemma run_timeout: "codeptr s < length p \<Longrightarrow> clock k - start > timelimit \<Longrightarrow> run clock start p bm k s = Some (Inr None)"
  by (subst run.simps) simp

lemma run_fault: "codeptr s < length p \<Longrightarrow> \<not> clock k - start > timelimit \<Longrightarrow> step p bm s = Inl e \<Longrightarrow> run clock start p bm k s = Some (Inl e)"
  by (subst run.simps) simp

lemma run_step: "codeptr s < length p \<Longrightarrow> \<not> clock k - start > timelimit \<Longrightarrow> step p bm s = Inr s' \<Longrightarrow> run clock start p bm k s = run clock start p bm (k + 1) s'"
  by (subst run.simps) simp

lemma cell_index: "tape_ok s \<Longrightarrow> nat (memptr s) < length (memory s)"
  unfolding tape_ok_def by linarith

subsection \<open>The edges of the tape\<close>

text \<open>
  Claim C8. A step on \<^verbatim>\<open>>\<close> with the tape pointer on the last cell appends exactly one
  zero cell and moves the pointer one to the right; elsewhere \<^verbatim>\<open>>\<close> moves the pointer
  one to the right and leaves the tape as it is. A step on \<^verbatim>\<open><\<close> with the pointer at 0
  sets it to the last cell and leaves the tape as it is; elsewhere it moves the pointer
  one to the left. No step shortens the tape, and the only step that lengthens it is
  \<^verbatim>\<open>>\<close>, by one zero cell at the right end: the right edge grows, the left edge wraps.
\<close>

theorem tape_edges:
  "(brainfuck_code ! codeptr s = CHR ''>'' \<longrightarrow>
      (\<exists>s'. step brainfuck_code bracemap s = Inr s' \<and> memptr s' = memptr s + 1 \<and>
            memory s' = (if memptr s = int (length (memory s)) - 1
                         then memory s @ [0] else memory s))) \<and>
   (brainfuck_code ! codeptr s = CHR ''<'' \<longrightarrow>
      (\<exists>s'. step brainfuck_code bracemap s = Inr s' \<and> memory s' = memory s \<and>
            memptr s' = (if memptr s = 0 then int (length (memory s)) - 1
                         else memptr s - 1))) \<and>
   (\<forall>s'. step brainfuck_code bracemap s = Inr s' \<longrightarrow>
      length (memory s') = length (memory s) \<or>
      (brainfuck_code ! codeptr s = CHR ''>'' \<and> memory s' = memory s @ [0]))"
proof (intro conjI impI allI)
  assume "brainfuck_code ! codeptr s = CHR ''>''"
  then show "\<exists>s'. step brainfuck_code bracemap s = Inr s' \<and> memptr s' = memptr s + 1 \<and>
            memory s' = (if memptr s = int (length (memory s)) - 1
                         then memory s @ [0] else memory s)"
    by (simp add: step_def dispatch_right)
next
  assume "brainfuck_code ! codeptr s = CHR ''<''"
  then show "\<exists>s'. step brainfuck_code bracemap s = Inr s' \<and> memory s' = memory s \<and>
            memptr s' = (if memptr s = 0 then int (length (memory s)) - 1
                         else memptr s - 1)"
    by (simp add: step_def dispatch_left)
next
  fix s' assume st: "step brainfuck_code bracemap s = Inr s'"
  then obtain t where t: "dispatch (brainfuck_code ! codeptr s) bracemap s = Inr t"
    and s': "s' = t\<lparr>codeptr := codeptr t + 1\<rparr>"
    by (auto simp: step_def split: sum.splits)
  have "length (memory t) = length (memory s) \<or>
      (brainfuck_code ! codeptr s = CHR ''>'' \<and> memory t = memory s @ [0])"
  proof (cases "brainfuck_code ! codeptr s" rule: cmd_cases)
    case 1 with t show ?thesis
      by (auto simp: dispatch_plus getitem_def setitem_def split: sum.splits option.splits)
  next
    case 2 with t show ?thesis
      by (auto simp: dispatch_minus getitem_def setitem_def split: sum.splits option.splits)
  next
    case 3 with t show ?thesis
      by (auto simp: dispatch_right)
  next
    case 4 with t show ?thesis
      by (auto simp: dispatch_left split: if_splits)
  next
    case 5 with t show ?thesis
      by (auto simp: dispatch_open split: sum.splits if_splits)
  next
    case 6 with t show ?thesis
      by (auto simp: dispatch_close split: sum.splits if_splits)
  next
    case 7 with t show ?thesis
      by (auto simp: dispatch_dot split: sum.splits)
  next
    case 8 with t show ?thesis
      by (auto simp: dispatch_comma setitem_def split: sum.splits option.splits)
  next
    case 9 with t show ?thesis
      by (auto simp: dispatch_other)
  qed
  with s' show "length (memory s') = length (memory s) \<or>
      (brainfuck_code ! codeptr s = CHR ''>'' \<and> memory s' = memory s @ [0])"
    by simp
qed

theorem tape_edges_witness:
  "''><'' ! codeptr (initial\<lparr>memptr := 99\<rparr>) = CHR ''>'' \<and>
   step ''><'' None (initial\<lparr>memptr := 99\<rparr>)
     = Inr (initial\<lparr>memptr := 100, memory := replicate 100 0 @ [0], codeptr := 1\<rparr>) \<and>
   ''<>'' ! codeptr initial = CHR ''<'' \<and>
   step ''<>'' None initial = Inr (initial\<lparr>memptr := 99, codeptr := 1\<rparr>)"
proof -
  have a: "''><'' ! codeptr (initial\<lparr>memptr := 99\<rparr>) = CHR ''>''"
    and b: "''<>'' ! codeptr initial = CHR ''<''"
    by (simp_all add: initial_def)
  from tape_edges[of "''><''" "initial\<lparr>memptr := 99\<rparr>" None] a
  have "step ''><'' None (initial\<lparr>memptr := 99\<rparr>)
     = Inr (initial\<lparr>memptr := 100, memory := replicate 100 0 @ [0], codeptr := 1\<rparr>)"
    by (simp add: initial_def step_def dispatch_right)
  moreover from tape_edges[of "''<>''" initial None] b
  have "step ''<>'' None initial = Inr (initial\<lparr>memptr := 99, codeptr := 1\<rparr>)"
    by (simp add: initial_def step_def dispatch_left)
  ultimately show ?thesis using a b by simp
qed

subsection \<open>The invariant along an execution\<close>

lemma iterate_ok:
  assumes "jumps_defined brainfuck_code bracemap" "tape_ok s"
  shows "\<exists>s'. iterate n brainfuck_code bracemap s = Inr s' \<and> tape_ok s'"
  using assms(2)
proof (induction n arbitrary: s)
  case 0
  then show ?case by simp
next
  case (Suc n)
  show ?case
  proof (cases "codeptr s < length brainfuck_code")
    case True
    have "\<exists>s'. step brainfuck_code bracemap s = Inr s' \<and> tape_ok s'"
      using Suc.prems assms(1) True
      by (intro step_ok) (auto simp: jumps_defined_def)
    then obtain s' where s': "step brainfuck_code bracemap s = Inr s'" "tape_ok s'"
      by blast
    from Suc.IH[OF s'(2)] s'(1) True show ?thesis by simp
  next
    case False
    with Suc.prems show ?thesis by simp
  qed
qed

lemma tape_ok_initial: "tape_ok initial"
  by (simp add: tape_ok_def initial_def)

text \<open>
  Claim C10. For a program that the validator accepted, after any number of passes
  through the loop body from the initial state no command has faulted, the tape
  pointer is an index of the tape (\<open>0 \<le> memptr < length\<close>), every cell holds a value in
  0..255, and the next command (when there is one) does not fault either: every cell
  read, cell write, \<^verbatim>\<open>chr\<close> conversion and jump-table lookup succeeds.
\<close>

theorem tape_invariant:
  assumes "bracemap_and_check brainfuck_code = (bracemap, True)"
  shows "\<exists>s. iterate n brainfuck_code bracemap initial = Inr s \<and>
             0 \<le> memptr s \<and> memptr s < int (length (memory s)) \<and>
             (\<forall>v \<in> set (memory s). 0 \<le> v \<and> v \<le> 255) \<and>
             (codeptr s < length brainfuck_code \<longrightarrow>
                (\<exists>s'. step brainfuck_code bracemap s = Inr s'))"
proof -
  have jd: "jumps_defined brainfuck_code bracemap"
    using assms by (rule valid_jumps_defined)
  from iterate_ok[OF jd tape_ok_initial, of n] obtain s
    where s: "iterate n brainfuck_code bracemap initial = Inr s" "tape_ok s"
    by blast
  have "codeptr s < length brainfuck_code \<longrightarrow> (\<exists>s'. step brainfuck_code bracemap s = Inr s')"
  proof
    assume "codeptr s < length brainfuck_code"
    with jd s(2) have "\<exists>s'. step brainfuck_code bracemap s = Inr s' \<and> tape_ok s'"
      by (intro step_ok) (auto simp: jumps_defined_def)
    then show "\<exists>s'. step brainfuck_code bracemap s = Inr s'" by blast
  qed
  with s show ?thesis
    unfolding tape_ok_def by blast
qed

theorem tape_invariant_witness:
  "bracemap_and_check ''+.'' = (Some Map.empty, True) \<and>
   iterate 1 ''+.'' (Some Map.empty) initial
     = Inr (initial\<lparr>memory := (replicate 100 0)[0 := 1], codeptr := 1\<rparr>) \<and>
   tape_ok (initial\<lparr>memory := (replicate 100 0)[0 := 1], codeptr := 1\<rparr>)"
proof -
  have v: "bracemap_and_check ''+.'' = (Some Map.empty, True)"
    by (simp add: bracemap_and_check_def legal_instructions_def isspace_def)
  have i: "iterate 1 ''+.'' (Some Map.empty) initial
     = Inr (initial\<lparr>memory := (replicate 100 0)[0 := 1], codeptr := 1\<rparr>)"
    by (simp add: initial_def step_def dispatch_plus getitem_def setitem_def position_def)
  from tape_invariant[OF v, of 1]
  have "\<exists>s. iterate 1 ''+.'' (Some Map.empty) initial = Inr s \<and> tape_ok s"
    unfolding tape_ok_def by blast
  then have "tape_ok (initial\<lparr>memory := (replicate 100 0)[0 := 1], codeptr := 1\<rparr>)"
    unfolding i by simp
  with v i show ?thesis by blast
qed

subsection \<open>Programs of increments, decrements and outputs\<close>

lemma run_straight:
  assumes "tape_ok s" "codeptr s \<le> length p"
    "set (drop (codeptr s) p) \<subseteq> {CHR ''+'', CHR ''-'', CHR ''.''}"
    "\<forall>j < length p - codeptr s. \<not> clock (k + j) - start > timelimit"
  shows "run clock start p bm k s =
           Some (Inr (Some (result s @
             predicted (drop (codeptr s) p) (memory s ! nat (memptr s)))))"
  using assms
proof (induction "length p - codeptr s" arbitrary: s k)
  case 0
  then have "\<not> codeptr s < length p" and "drop (codeptr s) p = []" by simp_all
  then show ?case by (simp add: run_end)
next
  case (Suc n)
  then have lt: "codeptr s < length p" by simp
  then have d: "drop (codeptr s) p = p ! codeptr s # drop (Suc (codeptr s)) p"
    by (simp add: Cons_nth_drop_Suc)
  with Suc.prems(3) have cmd: "p ! codeptr s \<in> {CHR ''+'', CHR ''-'', CHR ''.''}"
    and rest: "set (drop (Suc (codeptr s)) p) \<subseteq> {CHR ''+'', CHR ''-'', CHR ''.''}"
    by simp_all
  from Suc.prems(4) lt have now: "\<not> clock k - start > timelimit"
    by (metis add.right_neutral zero_less_diff)
  have later: "\<forall>j < length p - Suc (codeptr s). \<not> clock (k + 1 + j) - start > timelimit"
  proof (intro allI impI)
    fix j assume "j < length p - Suc (codeptr s)"
    then have "Suc j < length p - codeptr s" by simp
    with Suc.prems(4) have "\<not> clock (k + Suc j) - start > timelimit" by blast
    then show "\<not> clock (k + 1 + j) - start > timelimit" by simp
  qed
  from Suc.hyps(2) have n: "n = length p - Suc (codeptr s)" by simp
  note idx = cell_index[OF Suc.prems(1)]
  note byte = cell_byte[OF Suc.prems(1)]
  let ?v = "memory s ! nat (memptr s)"
  from cmd consider "p ! codeptr s = CHR ''+''" | "p ! codeptr s = CHR ''-''"
    | "p ! codeptr s = CHR ''.''" by blast
  then show ?case
  proof cases
    case 1
    let ?s' = "s\<lparr>memory := (memory s)[nat (memptr s) := (?v + 1) mod 256],
                  codeptr := codeptr s + 1\<rparr>"
    have st: "step p bm s = Inr ?s'"
      using Suc.prems(1) 1 by (rule step_plus)
    have ok: "tape_ok ?s'"
      using tape_ok_update[OF Suc.prems(1), of "(?v + 1) mod 256"] by simp
    have "run clock start p bm k s = run clock start p bm (k + 1) ?s'"
      using lt now st by (rule run_step)
    also have "\<dots> = Some (Inr (Some (result ?s' @
             predicted (drop (codeptr ?s') p) (memory ?s' ! nat (memptr ?s')))))"
      using n lt rest later by (intro Suc.hyps(1) ok) simp_all
    finally show ?thesis using 1 d idx by simp
  next
    case 2
    let ?s' = "s\<lparr>memory := (memory s)[nat (memptr s) := (?v - 1) mod 256],
                  codeptr := codeptr s + 1\<rparr>"
    have st: "step p bm s = Inr ?s'"
      using Suc.prems(1) 2 by (rule step_minus)
    have ok: "tape_ok ?s'"
      using tape_ok_update[OF Suc.prems(1), of "(?v - 1) mod 256"] by simp
    have "run clock start p bm k s = run clock start p bm (k + 1) ?s'"
      using lt now st by (rule run_step)
    also have "\<dots> = Some (Inr (Some (result ?s' @
             predicted (drop (codeptr ?s') p) (memory ?s' ! nat (memptr ?s')))))"
      using n lt rest later by (intro Suc.hyps(1) ok) simp_all
    finally show ?thesis using 2 d idx by simp
  next
    case 3
    let ?s' = "s\<lparr>result := result s @ [char_of ?v], codeptr := codeptr s + 1\<rparr>"
    have st: "step p bm s = Inr ?s'"
      using Suc.prems(1) 3 by (rule step_dot)
    have ok: "tape_ok ?s'"
      using Suc.prems(1) by simp
    have "run clock start p bm k s = run clock start p bm (k + 1) ?s'"
      using lt now st by (rule run_step)
    also have "\<dots> = Some (Inr (Some (result ?s' @
             predicted (drop (codeptr ?s') p) (memory ?s' ! nat (memptr ?s')))))"
      using n lt rest later by (intro Suc.hyps(1) ok) simp_all
    finally show ?thesis using 3 d by simp
  qed
qed


subsection \<open>C7: cells wrap around modulo 256\<close>

text \<open>
  Claim C7.  On a tape satisfying the invariant, a step on \<open>+\<close> with the current cell at 255
  stores 0 and otherwise adds one, a step on \<open>-\<close> with the current cell at 0 stores 255 and
  otherwise subtracts one; both steps return a state and no fault.  Consequently a program made
  only of \<open>+\<close>, \<open>-\<close> and \<open>.\<close>, run from the initial state while the clock stays within the
  limit, returns exactly the characters that arithmetic modulo 256 predicts.
\<close>

theorem cell_wraparound:
  "(tape_ok s \<and> p ! codeptr s = CHR ''+'' \<longrightarrow>
      step p bm s =
        Inr (s\<lparr>memory := (memory s)[nat (memptr s) :=
                   (if memory s ! nat (memptr s) = 255 then 0
                    else memory s ! nat (memptr s) + 1)],
               codeptr := codeptr s + 1\<rparr>)) \<and>
   (tape_ok s \<and> p ! codeptr s = CHR ''-'' \<longrightarrow>
      step p bm s =
        Inr (s\<lparr>memory := (memory s)[nat (memptr s) :=
                   (if memory s ! nat (memptr s) = 0 then 255
                    else memory s ! nat (memptr s) - 1)],
               codeptr := codeptr s + 1\<rparr>)) \<and>
   (set p \<subseteq> {CHR ''+'', CHR ''-'', CHR ''.''} \<and>
    (\<forall>j < length p. \<not> clock (k + j) - start > timelimit) \<longrightarrow>
      run clock start p bm k initial = Some (Inr (Some (predicted p 0))))"
proof (intro conjI impI)
  assume a: "tape_ok s \<and> p ! codeptr s = CHR ''+''"
  then have "(memory s ! nat (memptr s) + 1) mod 256 =
      (if memory s ! nat (memptr s) = 255 then 0 else memory s ! nat (memptr s) + 1)"
    using cell_byte[of s] by auto
  with a step_plus[of s p bm] show "step p bm s =
        Inr (s\<lparr>memory := (memory s)[nat (memptr s) :=
                   (if memory s ! nat (memptr s) = 255 then 0
                    else memory s ! nat (memptr s) + 1)],
               codeptr := codeptr s + 1\<rparr>)"
    by simp
next
  assume a: "tape_ok s \<and> p ! codeptr s = CHR ''-''"
  then have "(memory s ! nat (memptr s) - 1) mod 256 =
      (if memory s ! nat (memptr s) = 0 then 255 else memory s ! nat (memptr s) - 1)"
    using cell_byte[of s] by auto
  with a step_minus[of s p bm] show "step p bm s =
        Inr (s\<lparr>memory := (memory s)[nat (memptr s) :=
                   (if memory s ! nat (memptr s) = 0 then 255
                    else memory s ! nat (memptr s) - 1)],
               codeptr := codeptr s + 1\<rparr>)"
    by simp
next
  assume a: "set p \<subseteq> {CHR ''+'', CHR ''-'', CHR ''.''} \<and>
    (\<forall>j < length p. \<not> clock (k + j) - start > timelimit)"
  have "run clock start p bm k initial =
           Some (Inr (Some (result initial @
             predicted (drop (codeptr initial) p) (memory initial ! nat (memptr initial)))))"
    using a by (intro run_straight tape_ok_initial) (simp_all add: initial_def)
  then show "run clock start p bm k initial = Some (Inr (Some (predicted p 0)))"
    by (simp add: initial_def)
qed

theorem cell_wraparound_witness:
  "tape_ok (initial\<lparr>memory := [255]\<rparr>) \<and>
   step ''+'' None (initial\<lparr>memory := [255]\<rparr>)
     = Inr (initial\<lparr>memory := [0], codeptr := 1\<rparr>) \<and>
   tape_ok (initial\<lparr>memory := [0]\<rparr>) \<and>
   step ''-'' None (initial\<lparr>memory := [0]\<rparr>)
     = Inr (initial\<lparr>memory := [255], codeptr := 1\<rparr>) \<and>
   run (\<lambda>k. 0) 0 ''-.+.'' None 1 initial = Some (Inr (Some [CHR 0xFF, CHR 0x00]))"
proof -
  have a: "tape_ok (initial\<lparr>memory := [255]\<rparr>) \<and>
           ''+'' ! codeptr (initial\<lparr>memory := [255]\<rparr>) = CHR ''+''"
    by (simp add: tape_ok_def initial_def)
  have b: "tape_ok (initial\<lparr>memory := [0]\<rparr>) \<and>
           ''-'' ! codeptr (initial\<lparr>memory := [0]\<rparr>) = CHR ''-''"
    by (simp add: tape_ok_def initial_def)
  have c: "set ''-.+.'' \<subseteq> {CHR ''+'', CHR ''-'', CHR ''.''} \<and>
    (\<forall>j < length ''-.+.''. \<not> (\<lambda>k. 0 :: real) (1 + j) - 0 > timelimit)"
    by (simp add: timelimit_def)
  from cell_wraparound[where s = "initial\<lparr>memory := [255]\<rparr>" and p = "''+''" and bm = None] a
  have 1: "step ''+'' None (initial\<lparr>memory := [255]\<rparr>)
     = Inr (initial\<lparr>memory := [0], codeptr := 1\<rparr>)"
    by (simp add: initial_def)
  from cell_wraparound[where s = "initial\<lparr>memory := [0]\<rparr>" and p = "''-''" and bm = None] b
  have 2: "step ''-'' None (initial\<lparr>memory := [0]\<rparr>)
     = Inr (initial\<lparr>memory := [255], codeptr := 1\<rparr>)"
    by (simp add: initial_def)
  from cell_wraparound[where p = "''-.+.''" and bm = None and clock = "\<lambda>k. 0" and k = 1
      and start = 0] c
  have 3: "run (\<lambda>k. 0) 0 ''-.+.'' None 1 initial = Some (Inr (Some [CHR 0xFF, CHR 0x00]))"
    by (simp add: char_of_def)
  from a b 1 2 3 show ?thesis by blast
qed


subsection \<open>The deadline\<close>

lemma run_returns:
  "clock (k + j) - start > timelimit \<Longrightarrow> run clock start p bm k s \<noteq> None"
proof (induction j arbitrary: k s)
  case 0
  then show ?case
    by (cases "codeptr s < length p") (simp_all add: run_end run_timeout)
next
  case (Suc j)
  show ?case
  proof (cases "codeptr s < length p")
    case False
    then show ?thesis by (simp add: run_end)
  next
    case lt: True
    show ?thesis
    proof (cases "clock k - start > timelimit")
      case True
      with lt show ?thesis by (simp add: run_timeout)
    next
      case now: False
      show ?thesis
      proof (cases "step p bm s")
        case (Inl e)
        with lt now show ?thesis by (simp add: run_fault)
      next
        case (Inr s')
        from Suc.prems have "clock (k + 1 + j) - start > timelimit" by simp
        then have "run clock start p bm (k + 1) s' \<noteq> None" by (rule Suc.IH)
        moreover have "run clock start p bm k s = run clock start p bm (k + 1) s'"
          using lt now Inr by (rule run_step)
        ultimately show ?thesis by simp
      qed
    qed
  qed
qed

lemma run_complete:
  "run clock start p bm k s = Some y \<Longrightarrow>
   \<forall>r. y = Inr (Some r) \<longrightarrow>
     (\<exists>n s'. iterate n p bm s = Inr s' \<and> \<not> codeptr s' < length p \<and> r = result s' \<and>
              (\<forall>j < n. \<not> clock (k + j) - start > timelimit))"
proof (induct rule: run.raw_induct[rotated 1, consumes 1])
  case (1 run clock start p bm k s y)
  show ?case
  proof (cases "codeptr s < length p")
    case False
    with 1(2) have y: "y = Inr (Some (result s))" by simp
    have "iterate 0 p bm s = Inr s" by simp
    with False y show ?thesis by blast
  next
    case lt: True
    show ?thesis
    proof (cases "clock k - start > timelimit")
      case True
      with lt 1(2) have "y = Inr None" by simp
      then show ?thesis by simp
    next
      case now: False
      show ?thesis
      proof (cases "step p bm s")
        case (Inl e)
        with lt now 1(2) have "y = Inl e" by simp
        then show ?thesis by simp
      next
        case (Inr s1)
        with lt now 1(2) have "run clock start p bm (k + 1) s1 = Some y" by simp
        from 1(1)[OF this] have ih: "\<forall>r. y = Inr (Some r) \<longrightarrow>
          (\<exists>n s'. iterate n p bm s1 = Inr s' \<and> \<not> codeptr s' < length p \<and> r = result s' \<and>
              (\<forall>j < n. \<not> clock (k + 1 + j) - start > timelimit))" .
        show ?thesis
        proof (intro allI impI)
          fix r assume "y = Inr (Some r)"
          with ih obtain n s' where n: "iterate n p bm s1 = Inr s'" "\<not> codeptr s' < length p"
            "r = result s'" "\<forall>j < n. \<not> clock (k + 1 + j) - start > timelimit"
            by blast
          have a: "iterate (Suc n) p bm s = Inr s'" using lt Inr n(1) by simp
          have b: "\<forall>j < Suc n. \<not> clock (k + j) - start > timelimit"
          proof (intro allI impI)
            fix j assume j: "j < Suc n"
            show "\<not> clock (k + j) - start > timelimit"
            proof (cases j)
              case 0
              with now show ?thesis by simp
            next
              case (Suc j')
              with j n(4) have "\<not> clock (k + 1 + j') - start > timelimit" by simp
              with Suc show ?thesis by simp
            qed
          qed
          from a b n(2,3) show "\<exists>n s'. iterate n p bm s = Inr s' \<and> \<not> codeptr s' < length p \<and>
             r = result s' \<and> (\<forall>j < n. \<not> clock (k + j) - start > timelimit)"
            by blast
        qed
      qed
    qed
  qed
qed


text \<open>
  Claim C6. Every pass through the loop begins with the deadline test: when a command
  is left to execute and the elapsed time read at that moment exceeds the limit of 60
  seconds, the run returns \<open>None\<close> at once, whatever output has been accumulated in the
  state. A run whose clock passes the limit at some reading returns (it does not loop
  for ever). A run that returns a string has gone through the whole program: the string
  is the output of a state in which no command is left, reached by passes each of which
  had the deadline test answer no; so no partial output is returned.
\<close>

theorem deadline_enforced:
  "(codeptr s < length p \<and> clock k - start > timelimit \<longrightarrow>
      run clock start p bm k s = Some (Inr None)) \<and>
   ((\<exists>j. clock (k + j) - start > timelimit) \<longrightarrow> run clock start p bm k s \<noteq> None) \<and>
   (\<forall>r. run clock start p bm k s = Some (Inr (Some r)) \<longrightarrow>
      (\<exists>n s'. iterate n p bm s = Inr s' \<and> \<not> codeptr s' < length p \<and> r = result s' \<and>
              (\<forall>j < n. \<not> clock (k + j) - start > timelimit)))"
proof (intro conjI impI allI)
  assume "codeptr s < length p \<and> clock k - start > timelimit"
  then show "run clock start p bm k s = Some (Inr None)"
    by (simp add: run_timeout)
next
  assume "\<exists>j. clock (k + j) - start > timelimit"
  then obtain j where "clock (k + j) - start > timelimit" by blast
  then show "run clock start p bm k s \<noteq> None" by (rule run_returns)
next
  fix r assume "run clock start p bm k s = Some (Inr (Some r))"
  from run_complete[OF this]
  show "\<exists>n s'. iterate n p bm s = Inr s' \<and> \<not> codeptr s' < length p \<and> r = result s' \<and>
              (\<forall>j < n. \<not> clock (k + j) - start > timelimit)"
    by blast
qed

text \<open>
  The program \<^verbatim>\<open>+[.]\<close> loops for ever; with readings 15 seconds apart the fifth test
  stops it, after one character has been written.
\<close>

lemma loop_steps:
  "step ''+[.]'' (Some [1 \<mapsto> 3, 3 \<mapsto> 1]) initial
     = Inr \<lparr>codeptr = 1, memptr = 0, memory = (replicate 100 0)[0 := 1], result = []\<rparr>"
  "step ''+[.]'' (Some [1 \<mapsto> 3, 3 \<mapsto> 1])
      \<lparr>codeptr = 1, memptr = 0, memory = (replicate 100 0)[0 := 1], result = []\<rparr>
     = Inr \<lparr>codeptr = 2, memptr = 0, memory = (replicate 100 0)[0 := 1], result = []\<rparr>"
  "step ''+[.]'' (Some [1 \<mapsto> 3, 3 \<mapsto> 1])
      \<lparr>codeptr = 2, memptr = 0, memory = (replicate 100 0)[0 := 1], result = []\<rparr>
     = Inr \<lparr>codeptr = 3, memptr = 0, memory = (replicate 100 0)[0 := 1], result = [CHR 0x01]\<rparr>"
  "step ''+[.]'' (Some [1 \<mapsto> 3, 3 \<mapsto> 1])
      \<lparr>codeptr = 3, memptr = 0, memory = (replicate 100 0)[0 := 1], result = [CHR 0x01]\<rparr>
     = Inr \<lparr>codeptr = 2, memptr = 0, memory = (replicate 100 0)[0 := 1], result = [CHR 0x01]\<rparr>"
  by (simp_all add: initial_def step_def dispatch_plus dispatch_open dispatch_close dispatch_dot
      getitem_def setitem_def position_def getbrace_def chr_def char_of_def eval_nat_numeral)


theorem deadline_enforced_witness:
  "run (\<lambda>k. 15 * real k) 0 ''+[.]'' (Some [1 \<mapsto> 3, 3 \<mapsto> 1]) 5
      \<lparr>codeptr = 2, memptr = 0, memory = (replicate 100 0)[0 := 1], result = [CHR 0x01]\<rparr>
     = Some (Inr None) \<and>
   run (\<lambda>k. 15 * real k) 0 ''+[.]'' (Some [1 \<mapsto> 3, 3 \<mapsto> 1]) 1 initial = Some (Inr None) \<and>
   run (\<lambda>k. 15 * real k) 0 ''+[.]'' (Some [1 \<mapsto> 3, 3 \<mapsto> 1]) 1 initial \<noteq> None \<and>
   run (\<lambda>k. 0) 0 ''+.'' None 1 initial = Some (Inr (Some [CHR 0x01])) \<and>
   (\<exists>n s'. iterate n ''+.'' None initial = Inr s' \<and> \<not> codeptr s' < length ''+.'' \<and>
            [CHR 0x01] = result s' \<and> (\<forall>j < n. \<not> (\<lambda>k. 0 :: real) (1 + j) - 0 > timelimit))"
proof -
  let ?c = "\<lambda>k. 15 * real k" and ?bm = "Some [1 \<mapsto> 3, 3 \<mapsto> (1::nat)]"
  let ?s4 = "\<lparr>codeptr = 2, memptr = 0, memory = (replicate 100 0)[0 := 1],
              result = [CHR 0x01]\<rparr>"
  have h1: "codeptr ?s4 < length ''+[.]'' \<and> ?c 5 - 0 > timelimit"
    by (simp add: timelimit_def)
  from deadline_enforced[where s = ?s4 and p = "''+[.]''" and clock = ?c and k = 5
      and start = 0 and bm = ?bm] h1
  have a: "run ?c 0 ''+[.]'' ?bm 5 ?s4 = Some (Inr None)"
    by blast
  let ?s1 = "\<lparr>codeptr = 1, memptr = 0, memory = (replicate 100 0)[0 := 1], result = []\<rparr>"
  let ?s2 = "\<lparr>codeptr = 2, memptr = 0, memory = (replicate 100 0)[0 := 1], result = []\<rparr>"
  let ?s3 = "\<lparr>codeptr = 3, memptr = 0, memory = (replicate 100 0)[0 := 1],
              result = [CHR 0x01]\<rparr>"
  have "run ?c 0 ''+[.]'' ?bm 1 initial = run ?c 0 ''+[.]'' ?bm (1 + 1) ?s1"
    by (rule run_step[OF _ _ loop_steps(1)]) (simp_all add: initial_def timelimit_def)
  also have "\<dots> = run ?c 0 ''+[.]'' ?bm (1 + 1 + 1) ?s2"
    by (rule run_step[OF _ _ loop_steps(2)]) (simp_all add: timelimit_def)
  also have "\<dots> = run ?c 0 ''+[.]'' ?bm (1 + 1 + 1 + 1) ?s3"
    by (rule run_step[OF _ _ loop_steps(3)]) (simp_all add: timelimit_def)
  also have "\<dots> = run ?c 0 ''+[.]'' ?bm (1 + 1 + 1 + 1 + 1) ?s4"
    by (rule run_step[OF _ _ loop_steps(4)]) (simp_all add: timelimit_def)
  finally have "run ?c 0 ''+[.]'' ?bm 1 initial = run ?c 0 ''+[.]'' ?bm 5 ?s4"
    by (simp add: eval_nat_numeral)
  with a have b: "run ?c 0 ''+[.]'' ?bm 1 initial = Some (Inr None)"
    by simp
  have h2: "\<exists>j. ?c (1 + j) - 0 > timelimit"
    by (rule exI[of _ 4]) (simp add: timelimit_def)
  from deadline_enforced[where s = initial and p = "''+[.]''" and clock = ?c and k = 1
      and start = 0 and bm = ?bm] h2
  have c: "run ?c 0 ''+[.]'' ?bm 1 initial \<noteq> None"
    by blast
  have "run (\<lambda>k. 0) 0 ''+.'' None 1 initial =
          Some (Inr (Some (result initial @
             predicted (drop (codeptr initial) ''+.'') (memory initial ! nat (memptr initial)))))"
    by (intro run_straight tape_ok_initial) (simp_all add: initial_def timelimit_def)
  then have d: "run (\<lambda>k. 0) 0 ''+.'' None 1 initial = Some (Inr (Some [CHR 0x01]))"
    by (simp add: initial_def char_of_def)
  from deadline_enforced[where s = initial and p = "''+.''" and clock = "\<lambda>k. 0" and k = 1
      and start = 0 and bm = None] d
  have e: "\<exists>n s'. iterate n ''+.'' None initial = Inr s' \<and> \<not> codeptr s' < length ''+.'' \<and>
            [CHR 0x01] = result s' \<and> (\<forall>j < n. \<not> (\<lambda>k. 0 :: real) (1 + j) - 0 > timelimit)"
    by blast
  from a b c d e show ?thesis by blast
qed


subsection \<open>The facade returns a string or nothing\<close>








subsection \<open>Decoding sixty-five increments and an output\<close>

lemma pair_loop_replicate:
  assumes "ook_map (a @ '' '' @ b) = Some c"
  shows "pair_loop (concat (replicate n [a, b]) @ ts) = replicate n c @ pair_loop ts"
  using assms by (induction n) simp_all

lemma scan_straight:
  "set p \<subseteq> {CHR ''+'', CHR ''-'', CHR ''.''} \<Longrightarrow>
   scan idx p st bm lc pr = Some (st, bm, lc + length p, pr \<or> CHR ''.'' \<in> set p)"
proof (induction p arbitrary: idx lc pr)
  case Nil
  then show ?case by simp
next
  case (Cons c p)
  then have c: "c = CHR ''+'' \<or> c = CHR ''-'' \<or> c = CHR ''.''" and p: "set p \<subseteq> {CHR ''+'', CHR ''-'', CHR ''.''}"
    by auto
  from c show ?case
    by (auto simp: Cons.IH[OF p] legal_instructions_def)
qed

lemma straight_valid:
  assumes "set p \<subseteq> {CHR ''+'', CHR ''-'', CHR ''.''}" "CHR ''.'' \<in> set p"
  shows "bracemap_and_check p = (Some Map.empty, True)"
  using assms by (simp add: bracemap_and_check_def scan_straight)

lemma predicted_plus:
  "0 \<le> v \<Longrightarrow> v < 256 \<Longrightarrow>
   predicted (replicate n CHR ''+'' @ cs) v = predicted cs ((v + int n) mod 256)"
proof (induction n arbitrary: v)
  case 0
  then show ?case by simp
next
  case (Suc n)
  have "((v + 1) mod 256 + int n) mod 256 = (v + 1 + int n) mod 256"
    by (rule mod_add_left_eq)
  also have "v + 1 + int n = v + int (Suc n)"
    by simp
  finally have "((v + 1) mod 256 + int n) mod 256 = (v + int (Suc n)) mod 256" .
  moreover have "predicted (replicate n CHR ''+'' @ cs) ((v + 1) mod 256)
      = predicted cs (((v + 1) mod 256 + int n) mod 256)"
    by (rule Suc.IH) simp_all
  ultimately show ?case by simp
qed

text \<open>
  Claim C1. Let the token stream of a text (its lower-cased, stripped form split at
  whitespace) be 65 repetitions of the token pair that the table maps to \<^verbatim>\<open>+\<close>, followed
  by the token pair mapped to \<^verbatim>\<open>.\<close>. Then \<^verbatim>\<open>decode\<close> returns the one-character string
  \<^verbatim>\<open>A\<close> (code point 65), not \<open>None\<close>, provided the 66 deadline tests that such a run makes
  all find the elapsed time within the limit of 60 seconds.
\<close>

theorem sixty_five_increments:
  assumes plus: "ook_map (a @ '' '' @ b) = Some CHR ''+''"
    and dot: "ook_map (c @ '' '' @ d) = Some CHR ''.''"
    and tokens: "split (strip (lower ctext)) = concat (replicate 65 [a, b]) @ [c, d]"
    and time: "\<forall>j < 66. \<not> clock (1 + j) - clock 0 > timelimit"
  shows "decode clock ctext = Some (Inr (Some ''A''))"
proof -
  let ?code = "replicate 65 CHR ''+'' @ ''.''"
  have "pair_loop (split (strip (lower ctext))) = ?code"
    unfolding tokens using dot by (simp add: pair_loop_replicate[OF plus])
  then have tr: "ook_to_brainfuck ctext = Some ?code"
    by (simp add: ook_to_brainfuck_def)
  have v: "bracemap_and_check ?code = (Some Map.empty, True)"
    by (rule straight_valid) auto
  have "run clock (clock 0) ?code (Some Map.empty) 1 initial =
          Some (Inr (Some (result initial @
             predicted (drop (codeptr initial) ?code) (memory initial ! nat (memptr initial)))))"
    using time by (intro run_straight tape_ok_initial) (auto simp: initial_def)
  also have "\<dots> = Some (Inr (Some (predicted ?code 0)))"
    by (simp add: initial_def)
  also have "predicted ?code 0 = predicted ''.'' ((0 + int 65) mod 256)"
    by (rule predicted_plus) simp_all
  also have "\<dots> = ''A''"
    by (simp add: char_of_def)
  finally have "run clock (clock 0) ?code (Some Map.empty) 1 initial = Some (Inr (Some ''A''))" .
  with tr v show ?thesis
    by (simp add: decode_def)
qed

text \<open>
  A text with that token stream: \<^verbatim>\<open>Ook. Ook.\<close> written 65 times, then \<^verbatim>\<open>Ook! Ook.\<close>,
  decoded with half a second between two readings of the clock.
\<close>

lemma lower_repeat:
  "lower (concat (replicate n s) @ t) = concat (replicate n (lower s)) @ lower t"
  by (simp add: lower_def map_concat)

lemma strip_id:
  assumes "s \<noteq> []" "\<not> isspace (hd s)" "\<not> isspace (last s)"
  shows "strip s = s"
proof -
  from assms have a: "dropWhile isspace s = s"
    by (simp add: dropWhile_eq_self_iff)
  from assms have "dropWhile isspace (rev s) = rev s"
    by (simp add: dropWhile_eq_self_iff hd_rev)
  with a show ?thesis by (simp add: strip_def)
qed

lemma split_repeat:
  "split_from (concat (replicate n ''ook. ook. '') @ r) None
     = concat (replicate n [''ook.'', ''ook.'']) @ split_from r None"
  by (induction n) (simp_all add: isspace_def)

lemma sample_tokens:
  "split (strip (lower (concat (replicate 65 ''Ook. Ook. '') @ ''Ook! Ook.'')))
     = concat (replicate 65 [''ook.'', ''ook.'']) @ [''ook!'', ''ook.'']"
proof -
  let ?t = "concat (replicate 65 ''ook. ook. '') @ ''ook! ook.''"
  have l1: "lower ''Ook. Ook. '' = ''ook. ook. ''" by code_simp
  have l2: "lower ''Ook! Ook.'' = ''ook! ook.''" by code_simp
  have low: "lower (concat (replicate 65 ''Ook. Ook. '') @ ''Ook! Ook.'') = ?t"
    by (simp only: lower_repeat l1 l2)
  have "replicate 65 ''ook. ook. '' = ''ook. ook. '' # replicate 64 ''ook. ook. ''"
    by (simp add: eval_nat_numeral)
  then have h: "hd ?t = CHR ''o''" by simp
  have "strip ?t = ?t"
    by (rule strip_id) (simp_all add: h isspace_def)
  moreover have "split_from ?t None = concat (replicate 65 [''ook.'', ''ook.'']) @ [''ook!'', ''ook.'']"
    by (simp add: split_repeat isspace_def)
  ultimately show ?thesis
    by (simp only: low split_def)
qed

theorem sixty_five_increments_witness:
  "ook_map (''ook.'' @ '' '' @ ''ook.'') = Some CHR ''+'' \<and>
   ook_map (''ook!'' @ '' '' @ ''ook.'') = Some CHR ''.'' \<and>
   split (strip (lower (concat (replicate 65 ''Ook. Ook. '') @ ''Ook! Ook.'')))
     = concat (replicate 65 [''ook.'', ''ook.'']) @ [''ook!'', ''ook.''] \<and>
   decode (\<lambda>k. real k / 2) (concat (replicate 65 ''Ook. Ook. '') @ ''Ook! Ook.'')
     = Some (Inr (Some ''A''))"
proof -
  have p: "ook_map (''ook.'' @ '' '' @ ''ook.'') = Some CHR ''+''"
    by (simp add: ook_map_def)
  have d: "ook_map (''ook!'' @ '' '' @ ''ook.'') = Some CHR ''.''"
    by (simp add: ook_map_def)
  have t: "\<forall>j < 66. \<not> (\<lambda>k. real k / 2) (1 + j) - (\<lambda>k. real k / 2) 0 > timelimit"
    by (simp add: timelimit_def)
  from sixty_five_increments[OF p d sample_tokens t] p d sample_tokens
  show ?thesis by blast
qed


subsection \<open>Texts without a token marker\<close>

lemma count_zero_sublist:
  "sub \<noteq> [] \<Longrightarrow> count s sub = 0 \<Longrightarrow> \<not> sublist sub s"
proof (induction s sub rule: count.induct)
  case (1 s sub)
  show ?case
  proof (cases "s = []")
    case True
    with "1.prems" show ?thesis by simp
  next
    case ne: False
    then obtain c cs where s: "s = c # cs" by (cases s) auto
    from "1.prems" ne have np: "\<not> prefix sub s"
      by (subst (asm) count.simps) (auto split: if_splits)
    with "1.prems" ne have "count (tl s) sub = 0"
      by (subst (asm) count.simps) (auto split: if_splits)
    with "1.IH"(2)[OF "1.prems"(1) ne np] "1.prems"(1) have "\<not> sublist sub (tl s)"
      by simp
    with np s show ?thesis
      by (simp add: sublist_Cons_right)
  qed
qed

lemma split_from_sublist:
  "w \<in> set (split_from s acc) \<Longrightarrow> sublist w (case acc of None \<Rightarrow> s | Some a \<Rightarrow> a @ s)"
proof (induction s acc rule: split_from.induct)
  case 1
  then show ?case by simp
next
  case (2 a)
  then show ?case by simp
next
  case (3 c cs)
  show ?case
  proof (cases "isspace c")
    case True
    with 3 have "sublist w cs" by simp
    then show ?thesis by (simp add: sublist_Cons_right)
  next
    case False
    with 3 have "sublist w ([c] @ cs)" by simp
    then show ?thesis by simp
  qed
next
  case (4 c cs a)
  show ?case
  proof (cases "isspace c")
    case True
    with 4 have "w = a \<or> sublist w cs" by auto
    then show ?thesis
    proof
      assume "w = a"
      then show ?thesis by (simp add: sublist_append_rightI)
    next
      assume "sublist w cs"
      then obtain ps ss where "cs = ps @ w @ ss"
        unfolding sublist_def by blast
      then have "a @ c # cs = (a @ c # ps) @ w @ ss" by simp
      then have "sublist w (a @ c # cs)"
        unfolding sublist_def by blast
      then show ?thesis by simp
    qed
  next
    case False
    with 4 have "sublist w ((a @ [c]) @ cs)" by simp
    then show ?thesis by simp
  qed
qed

lemma strip_sublist: "sublist (strip s) s"
proof -
  have "prefix (strip s) (dropWhile isspace s)"
    unfolding strip_def
    by (metis suffix_dropWhile suffix_to_prefix rev_rev_ident)
  moreover have "suffix (dropWhile isspace s) s"
    by (rule suffix_dropWhile)
  ultimately show ?thesis
    by (meson prefix_imp_sublist suffix_imp_sublist sublist_order.order_trans)
qed

lemma token_sublist:
  assumes "w \<in> set (split (strip (lower text)))"
  shows "sublist w (lower text)"
proof -
  from assms have "sublist w (strip (lower text))"
    using split_from_sublist[of w "strip (lower text)" None] by (simp add: split_def)
  with strip_sublist[of "lower text"] show ?thesis
    by (rule sublist_order.order_trans[rotated])
qed

lemma ook_map_first:
  assumes "ook_map (a @ '' '' @ b) = Some c"
  shows "a = ''ook.'' \<or> a = ''ook!'' \<or> a = ''ook?''"
proof -
  from assms have "a @ CHR '' '' # b \<in>
     {''ook. ook?'', ''ook? ook.'', ''ook. ook.'', ''ook! ook!'', ''ook! ook.'',
      ''ook. ook!'', ''ook! ook?'', ''ook? ook!''}"
    by (auto simp: ook_map_def split: if_splits)
  then show ?thesis
    by (auto simp: append_eq_Cons_conv)
qed

lemma pair_loop_none:
  "\<forall>w \<in> set ts. w \<noteq> ''ook.'' \<and> w \<noteq> ''ook!'' \<and> w \<noteq> ''ook?'' \<Longrightarrow> pair_loop ts = []"
proof (induction ts rule: pair_loop.induct)
  case (1 a b ts)
  have "ook_map (a @ '' '' @ b) = None"
  proof (cases "ook_map (a @ '' '' @ b)")
    case (Some c)
    from ook_map_first[OF this] "1.prems" show ?thesis by simp
  qed simp
  with 1 show ?case by simp
qed simp_all

text \<open>
  Claim C2, amended. For a text that holds none of the three token markers \<^verbatim>\<open>ook.\<close>,
  \<^verbatim>\<open>ook!\<close> and \<^verbatim>\<open>ook?\<close> (counted in its lower-cased form, as \<^verbatim>\<open>fitness\<close> counts them),
  \<^verbatim>\<open>decode\<close> returns \<open>None\<close> after a single call, the one of the transpiler, which yields
  no instruction; the validator and the tape machine are not reached. \<^verbatim>\<open>decode\<close> does not
  call \<^verbatim>\<open>fitness\<close>, whose score for such a text is 0.
\<close>

theorem no_markers_absent:
  assumes "count (lower text) ''ook.'' = 0"
    and "count (lower text) ''ook!'' = 0"
    and "count (lower text) ''ook?'' = 0"
  shows "decode clock text = Some (Inr None) \<and>
         decode_calls text = [Call_ook_to_brainfuck text] \<and>
         Call_fitness text \<notin> set (decode_calls text) \<and>
         fitness text = 0"
proof -
  have no: "\<not> sublist ''ook.'' (lower text)" "\<not> sublist ''ook!'' (lower text)"
    "\<not> sublist ''ook?'' (lower text)"
    using assms by (simp_all add: count_zero_sublist)
  have "\<forall>w \<in> set (split (strip (lower text))).
          w \<noteq> ''ook.'' \<and> w \<noteq> ''ook!'' \<and> w \<noteq> ''ook?''"
    using no token_sublist[of _ "text"] by blast
  then have "pair_loop (split (strip (lower text))) = []"
    by (rule pair_loop_none)
  then have tr: "ook_to_brainfuck text = None"
    by (simp add: ook_to_brainfuck_def)
  then have "decode clock text = Some (Inr None)"
    by (simp add: decode_def)
  moreover from tr have "decode_calls text = [Call_ook_to_brainfuck text]"
    by (simp add: decode_calls_def)
  moreover from assms have "fitness text = 0"
    by (simp add: fitness_def)
  ultimately show ?thesis by simp
qed

text \<open>
  The specification has the text rejected by an applicability test before the
  transpiler is invoked. On the text \<^verbatim>\<open>hello\<close>, which holds no marker, the first call
  that \<^verbatim>\<open>decode\<close> makes is the call of the transpiler.
\<close>

theorem no_markers_absent_counterexample:
  "count (lower ''hello'') ''ook.'' = 0 \<and>
   count (lower ''hello'') ''ook!'' = 0 \<and>
   count (lower ''hello'') ''ook?'' = 0 \<and>
   Call_ook_to_brainfuck ''hello'' \<in> set (decode_calls ''hello'') \<and>
   hd (decode_calls ''hello'') = Call_ook_to_brainfuck ''hello''"
proof -
  have "count (lower ''hello'') ''ook.'' = 0" by code_simp
  moreover have "count (lower ''hello'') ''ook!'' = 0" by code_simp
  moreover have "count (lower ''hello'') ''ook?'' = 0" by code_simp
  ultimately show ?thesis by (simp add: decode_calls_def)
qed

theorem no_markers_absent_witness:
  "count (lower ''Ook ook'') ''ook.'' = 0 \<and>
   count (lower ''Ook ook'') ''ook!'' = 0 \<and>
   count (lower ''Ook ook'') ''ook?'' = 0 \<and>
   decode (\<lambda>k. 0) ''Ook ook'' = Some (Inr None) \<and>
   decode_calls ''Ook ook'' = [Call_ook_to_brainfuck ''Ook ook''] \<and>
   fitness ''Ook ook'' = 0"
proof -
  have a: "count (lower ''Ook ook'') ''ook.'' = 0" by code_simp
  have b: "count (lower ''Ook ook'') ''ook!'' = 0" by code_simp
  have c: "count (lower ''Ook ook'') ''ook?'' = 0" by code_simp
  from no_markers_absent[OF a b c, of "\<lambda>k. 0"] a b c show ?thesis by blast
qed

end
